theory Spec2Isabelle
  imports Main "HOL-Library.List_Lexorder" "HOL-Library.Char_ord"
begin

section \<open>fold.cpp: the association forest and its enumeration\<close>

text \<open>
  The program reads the corpus file twice (\<open>loadDictionary\<close>, \<open>load\<close>), builds
  \<open>trees\<close>, and then searches it (\<open>main\<close>). The embedding follows the source
  function by function. Conventions:
  \<^item> \<open>unsigned int\<close> word ids, vector lengths and vector indices are \<open>nat\<close>: they
    count objects held in memory and the index variables never reach \<open>2 ^ 32\<close>. The one
    place where 32-bit arithmetic is reached by an ordinary corpus is the product in
    \<open>maximum\<close>; there the wrap-around is written out (\<open>u32\<close>). A \<open>size() - 1\<close> is
    computed in \<open>size_t\<close> and wraps for an empty vector (\<open>size_minus_1\<close>).
  \<^item> Reading a vector outside its range is undefined behaviour in C++; every such read
    that the code does not guard is a \<open>None\<close> branch of the model.
  \<^item> \<open>std::map\<close> is an association list; \<open>operator[]\<close> inserts a zero
    (or the empty string) for a missing key, as the library does.
  \<^item> What the program writes to \<open>cout\<close> is a list of events in the order written
    (\<open>event\<close>), turned into lines by \<open>render\<close>.
\<close>

subsection \<open>The input stream\<close>

text \<open>
  The file \<open>huge.txt\<close> is a sequence of whitespace-separated tokens, possibly followed
  by white space (a final newline). \<open>in >> word\<close> on a stream whose \<open>eofbit\<close> is set
  fails and leaves \<open>word\<close> as it was; otherwise it skips white space, and either
  meets the end of the file (the extraction fails, \<open>eofbit\<close> is set, \<open>word\<close> is left
  as it was) or reads one token, setting \<open>eofbit\<close> when the token ends at the end of
  the file. The file is taken to exist (on a stream that failed to open,
  \<open>eof()\<close> never becomes true).
\<close>

record istream =
  pending :: "string list"
  trailing :: bool
  eofbit :: bool

definition fopen :: "string list \<Rightarrow> bool \<Rightarrow> istream" where
  "fopen toks tr = \<lparr>pending = toks, trailing = tr, eofbit = False\<rparr>"

definition get_word :: "istream \<Rightarrow> string \<Rightarrow> istream \<times> string" where
  "get_word s word =
     (if eofbit s then (s, word)
      else case pending s of
             [] \<Rightarrow> (s\<lparr>eofbit := True\<rparr>, word)
           | t # ts \<Rightarrow> (s\<lparr>pending := ts, eofbit := (ts = [] \<and> \<not> trailing s)\<rparr>, t))"

definition stream_measure :: "istream \<Rightarrow> nat" where
  "stream_measure s = (if eofbit s then 0 else Suc (length (pending s)))"

subsection \<open>The dictionary\<close>

type_synonym dict = "(string \<times> nat) list"

definition count_key :: "dict \<Rightarrow> string \<Rightarrow> nat" where
  "count_key d w = (if map_of d w = None then 0 else 1)"

text \<open>\<open>dictionary[w]\<close>: the value read (\<open>idx\<close>) and the dictionary afterwards (\<open>touch\<close>).\<close>

definition idx :: "dict \<Rightarrow> string \<Rightarrow> nat" where
  "idx d w = (case map_of d w of None \<Rightarrow> 0 | Some n \<Rightarrow> n)"

definition touch :: "dict \<Rightarrow> string \<Rightarrow> dict" where
  "touch d w = (if map_of d w = None then d @ [(w, 0)] else d)"

text \<open>The body of the loop of \<open>loadDictionary\<close>, lines 104 to 107.\<close>

definition intern :: "dict \<Rightarrow> string \<Rightarrow> dict" where
  "intern dictionary word =
     (if count_key dictionary word = 0 then dictionary @ [(word, length dictionary)]
      else dictionary)"

function loadDictionary_loop :: "istream \<Rightarrow> string \<Rightarrow> dict \<Rightarrow> dict" where
  "loadDictionary_loop vocab word dictionary =
     (if eofbit vocab then dictionary
      else case get_word vocab word of
             (vocab', word') \<Rightarrow> loadDictionary_loop vocab' word' (intern dictionary word'))"
  by pat_completeness auto
termination
  by (relation "measure (\<lambda>(s, w, d). stream_measure s)")
     (auto simp: get_word_def stream_measure_def split: list.splits if_splits)

declare loadDictionary_loop.simps [simp del]

definition loadDictionary :: "string list \<Rightarrow> bool \<Rightarrow> dict \<Rightarrow> dict" where
  "loadDictionary toks tr dictionary = loadDictionary_loop (fopen toks tr) [] dictionary"

subsection \<open>The forest\<close>

type_synonym intVector = "nat list"
type_synonym intVectorPair = "nat \<times> intVector"
type_synonym top = "intVectorPair list"
type_synonym tops = "top list"

text \<open>
  \<open>doesNotContain\<close>, lines 128 to 147. The loop reads \<open>root[i]\<close> only below
  \<open>root.size() - 1\<close>, and the read after it is at most at \<open>root.size() - 1\<close> of a
  vector that is not empty (\<open>dnc_loop_bound\<close>), so no read is out of range.
\<close>

function dnc_loop :: "top \<Rightarrow> nat \<Rightarrow> nat \<Rightarrow> nat" where
  "dnc_loop root x i =
     (if i < length root - 1 \<and> fst (root ! i) \<noteq> x then dnc_loop root x (Suc i) else i)"
  by pat_completeness auto
termination
  by (relation "measure (\<lambda>(root, x, i). length root - i)") auto

declare dnc_loop.simps [simp del]

definition doesNotContain :: "top \<Rightarrow> nat \<Rightarrow> bool" where
  "doesNotContain root x =
     (if length root = 0 then True else fst (root ! dnc_loop root x 0) \<noteq> x)"

text \<open>
  Line 281 of \<open>load\<close>: \<open>while (trees[..][i].first != dictionary[oneBack]) i++\<close>, a
  search with no bound; running off the vector is \<open>None\<close>.
\<close>

function branch_scan :: "top \<Rightarrow> nat \<Rightarrow> nat \<Rightarrow> nat option" where
  "branch_scan root x i =
     (if i < length root
      then (if fst (root ! i) \<noteq> x then branch_scan root x (Suc i) else Some i)
      else None)"
  by pat_completeness auto
termination
  by (relation "measure (\<lambda>(root, x, i). length root - i)") auto

declare branch_scan.simps [simp del]

text \<open>Lines 287 to 291 of \<open>load\<close>: the search of a leaf vector, guarded by its size.\<close>

function leaf_scan :: "intVector \<Rightarrow> nat \<Rightarrow> nat \<Rightarrow> nat" where
  "leaf_scan leaves x k =
     (if k < length leaves \<and> leaves ! k \<noteq> x then leaf_scan leaves x (Suc k) else k)"
  by pat_completeness auto
termination
  by (relation "measure (\<lambda>(leaves, x, k). length leaves - k)") auto

declare leaf_scan.simps [simp del]

text \<open>
  The body of the read loop of \<open>load\<close>, lines 273 to 297, for the word just read.
  Every \<open>dictionary[..]\<close> of the body inserts a zero for a missing key and no other
  statement changes the dictionary, so the three keys are inserted first (\<open>touch\<close>)
  and the values read afterwards (\<open>idx\<close>); \<open>idx_touch\<close> shows that the order of the
  reads and insertions does not change a value read.
\<close>

definition load_body :: "string \<Rightarrow> string \<Rightarrow> string \<Rightarrow> dict \<Rightarrow> tops \<Rightarrow> (tops \<times> dict) option" where
  "load_body word oneBack twoBack dictionary trees =
     (let d = touch (touch (touch dictionary twoBack) word) oneBack;
          r = idx d twoBack;
          w = idx d word;
          b = idx d oneBack
      in if r < length trees
         then (let root1 = (if doesNotContain (trees ! r) w then (trees ! r) @ [(w, [])]
                            else trees ! r)
               in case branch_scan root1 b 0 of
                    None \<Rightarrow> None
                  | Some i \<Rightarrow>
                      (let k = leaf_scan (snd (root1 ! i)) w 0;
                           root2 = (if k = length (snd (root1 ! i))
                                    then root1[i := (fst (root1 ! i), snd (root1 ! i) @ [w])]
                                    else root1)
                       in Some (trees[r := root2], d)))
         else None)"

function load_loop ::
  "istream \<Rightarrow> string \<Rightarrow> string \<Rightarrow> string \<Rightarrow> dict \<Rightarrow> tops \<Rightarrow> (tops \<times> dict) option" where
  "load_loop inp word oneBack twoBack dictionary trees =
     (if eofbit inp then Some (trees, dictionary)
      else case get_word inp word of
             (inp', word') \<Rightarrow>
               (case load_body word' oneBack twoBack dictionary trees of
                  None \<Rightarrow> None
                | Some (trees', dictionary') \<Rightarrow>
                    load_loop inp' word' oneBack twoBack dictionary' trees'))"
  by pat_completeness auto
termination
  by (relation "measure (\<lambda>(s, w, ob, tb, d, t). stream_measure s)")
     (auto simp: get_word_def stream_measure_def split: list.splits if_splits)

declare load_loop.simps [simp del]

text \<open>
  \<open>reverseEntries\<close>, lines 111 to 126: the dictionary is walked in the order of its
  keys and \<open>insert\<close> keeps the entry a number already has.
\<close>

type_synonym rdict = "(nat \<times> string) list"

definition reverseEntries :: "dict \<Rightarrow> rdict" where
  "reverseEntries dictionary =
     fold (\<lambda>(word, num) rd. if map_of rd num = None then rd @ [(num, word)] else rd)
       (sort_key fst dictionary) []"

text \<open>
  \<open>load\<close>, lines 234 to 305. Both streams read the same file. The result is the forest,
  the dictionary as \<open>load\<close> leaves it, and the reverse dictionary.
\<close>

definition load :: "string list \<Rightarrow> bool \<Rightarrow> (tops \<times> dict \<times> rdict) option" where
  "load toks tr =
     (let dictionary0 = loadDictionary toks tr [];
          trees0 = replicate (length dictionary0) [];
          (in1, twoBack) = get_word (fopen toks tr) [];
          (in2, oneBack) = get_word in1 [];
          firstBranch = (idx dictionary0 oneBack, []);
          dictionary1 = touch (touch dictionary0 oneBack) twoBack;
          r = idx dictionary1 twoBack
      in if r < length trees0
         then (case load_loop in2 [] oneBack twoBack dictionary1
                      (trees0[r := (trees0 ! r) @ [firstBranch]]) of
                 None \<Rightarrow> None
               | Some (trees, dictionary) \<Rightarrow> Some (trees, dictionary, reverseEntries dictionary))
         else None)"

subsection \<open>The search\<close>

type_synonym coord = "nat \<times> nat"

definition u32 :: "nat \<Rightarrow> nat" where
  "u32 n = n mod 2 ^ 32"

text \<open>\<open>v.size() - 1\<close> in \<open>size_t\<close>, for a vector of the given length.\<close>

definition size_minus_1 :: "nat \<Rightarrow> nat" where
  "size_minus_1 n = (if n = 0 then 2 ^ 64 - 1 else n - 1)"

text \<open>\<open>populateChildrenForE\<close>, lines 31 to 37.\<close>

fun populateChildrenForE :: "top \<Rightarrow> nat list \<Rightarrow> nat list" where
  "populateChildrenForE [] children = children"
| "populateChildrenForE (e # root) children = populateChildrenForE root (children @ [fst e])"

text \<open>
  \<open>iterateCoordinates\<close>, lines 56 to 93. The conjunction of line 59 reads
  \<open>root[root.size() - 1]\<close> only when its first half holds.
\<close>

definition sweep_at_end :: "top \<Rightarrow> coord \<Rightarrow> bool option" where
  "sweep_at_end root sweepCoordinates =
     (if fst sweepCoordinates = size_minus_1 (length root)
      then (if size_minus_1 (length root) < length root
            then Some (snd sweepCoordinates =
                        size_minus_1 (length (snd (root ! size_minus_1 (length root)))))
            else None)
      else Some False)"

definition advance :: "top \<Rightarrow> coord \<Rightarrow> coord option" where
  "advance root c =
     (if fst c < length root
      then (if snd c = size_minus_1 (length (snd (root ! fst c)))
            then Some (Suc (fst c), 0)
            else Some (fst c, Suc (snd c)))
      else None)"

definition iterateCoordinates :: "top \<Rightarrow> coord \<Rightarrow> coord \<Rightarrow> (coord \<times> coord) option" where
  "iterateCoordinates root mainCoordinates sweepCoordinates =
     (case sweep_at_end root sweepCoordinates of
        None \<Rightarrow> None
      | Some True \<Rightarrow>
          (case advance root mainCoordinates of
             None \<Rightarrow> None
           | Some m \<Rightarrow> Some (m, m))
      | Some False \<Rightarrow>
          (case advance root sweepCoordinates of
             None \<Rightarrow> None
           | Some s \<Rightarrow> Some (mainCoordinates, s)))"

text \<open>\<open>maximum\<close>, lines 192 to 210, in \<open>unsigned int\<close> arithmetic.\<close>

definition grandchildren_loop :: "top \<Rightarrow> nat" where
  "grandchildren_loop root = fold (\<lambda>e g. u32 (g + length (snd e))) root 0"

definition maximum :: "top \<Rightarrow> nat" where
  "maximum root =
     (let grandchildren = grandchildren_loop root
      in if grandchildren = 1 then 1
         else u32 (grandchildren * u32 (grandchildren + 1)) div 2)"

text \<open>\<open>getNext\<close>, lines 163 to 188; the result is the frame, \<open>gotNext\<close> and \<open>i\<close>.\<close>

function getNext_skip :: "nat list \<Rightarrow> top \<Rightarrow> nat \<Rightarrow> nat" where
  "getNext_skip children root i =
     (if i < length children \<and> doesNotContain root (children ! i)
      then getNext_skip children root (Suc i) else i)"
  by pat_completeness auto
termination
  by (relation "measure (\<lambda>(children, root, i). length children - i)") auto

declare getNext_skip.simps [simp del]

definition getNext ::
  "nat list \<Rightarrow> nat list \<Rightarrow> top \<Rightarrow> nat \<Rightarrow> nat \<Rightarrow> (nat list \<times> bool \<times> nat) option" where
  "getNext frame children root i framePos =
     (let j = getNext_skip children root i
      in if \<not> (j < length children) then Some (frame, False, Suc j)
         else if j < length children \<and> doesNotContain root (children ! j)
              then Some (frame, False, Suc j)
         else if framePos < length frame
              then Some (frame[framePos := children ! j], True, Suc j)
         else None)"

text \<open>\<open>getNextFrame\<close>, lines 212 to 229.\<close>

definition getNextFrame ::
  "nat \<Rightarrow> top \<Rightarrow> nat list \<Rightarrow> coord \<Rightarrow> coord \<Rightarrow> bool \<Rightarrow> (nat list \<times> coord \<times> coord \<times> bool) option" where
  "getNextFrame current root frame mainCoordinates sweepCoordinates ranBefore =
     (case (if ranBefore then iterateCoordinates root mainCoordinates sweepCoordinates
            else Some (mainCoordinates, sweepCoordinates)) of
        None \<Rightarrow> None
      | Some (m, s) \<Rightarrow>
          if 6 < length frame
             \<and> fst m < length root \<and> snd m < length (snd (root ! fst m))
             \<and> fst s < length root \<and> snd s < length (snd (root ! fst s))
          then Some (frame[0 := current,
                           1 := fst (root ! fst m),
                           2 := snd (root ! fst m) ! snd m,
                           3 := fst (root ! fst s),
                           6 := snd (root ! fst s) ! snd s], m, s, True)
          else None)"

text \<open>
  What \<open>main\<close> does, in order: \<open>Root\<close> is the line \<open>root: ..\<close> of line 334,
  \<open>Visit\<close> a return of \<open>getNextFrame\<close> with the coordinates it left (the trace of the
  commented lines 340 and 341, which writes nothing), \<open>Emit\<close> the divider of line 363
  followed by the call of \<open>outPutAll\<close> on a copy of the frame.
\<close>

datatype event = Root nat | Visit coord coord | Emit "nat list"

text \<open>
  The loop of lines 354 to 366, from cursor \<open>i\<close>. The result is the events written and,
  unless a read went out of range, the frame as the loop leaves it.
\<close>

lemma getNext_skip_ge: "i \<le> getNext_skip children root i"
proof (induction children root i rule: getNext_skip.induct)
  case (1 children root i)
  show ?case
  proof (cases "i < length children \<and> doesNotContain root (children ! i)")
    case True
    with "1.IH" have "Suc i \<le> getNext_skip children root (Suc i)" by simp
    with True show ?thesis by (subst getNext_skip.simps) simp
  next
    case False
    then show ?thesis by (subst getNext_skip.simps) auto
  qed
qed

lemma getNext_cursor:
  assumes "getNext frame children root i framePos = Some (frame', True, i')"
  shows "i < i' \<and> i' \<le> length children"
proof -
  let ?j = "getNext_skip children root i"
  from assms have "?j < length children" and "i' = Suc ?j"
    by (auto simp: getNext_def Let_def split: if_splits)
  with getNext_skip_ge [of i children root] show ?thesis by simp
qed

function match_loop :: "nat list \<Rightarrow> nat list \<Rightarrow> top \<Rightarrow> nat \<Rightarrow> event list \<times> nat list option" where
  "match_loop frame children rootD i =
     (case getNext frame children rootD i 4 of
        None \<Rightarrow> ([], None)
      | Some (frame', gotNextE, i') \<Rightarrow>
          if gotNextE
          then (case match_loop frame' children rootD i' of
                  (evs, r) \<Rightarrow> (Emit frame' # evs, r))
          else ([], Some frame'))"
  by pat_completeness auto
termination
proof (relation "measure (\<lambda>(frame, children, rootD, i). Suc (length children) - i)")
  show "wf (measure (\<lambda>(frame, children, rootD, i). Suc (length children) - i))"
    by simp
next
  fix frame children :: "nat list" and rootD :: top and i :: nat
    and x2 :: "nat list \<times> bool \<times> nat" and frame' :: "nat list" and y :: "bool \<times> nat"
    and gotNextE :: bool and i' :: nat
  assume "getNext frame children rootD i 4 = Some x2"
    and "(frame', y) = x2" and "(gotNextE, i') = y" and "gotNextE"
  then have "getNext frame children rootD i 4 = Some (frame', True, i')"
    by auto
  from getNext_cursor [OF this]
  show "((frame', children, rootD, i'), (frame, children, rootD, i))
          \<in> measure (\<lambda>(frame, children, rootD, i). Suc (length children) - i)"
    by auto
qed

declare match_loop.simps [simp del]

text \<open>
  One turn of the loop of lines 335 to 367: \<open>getNextFrame\<close>, the two forest entries
  read at lines 349 and 350, and the matches.
\<close>

definition pair_body ::
  "tops \<Rightarrow> nat \<Rightarrow> top \<Rightarrow> nat list \<Rightarrow> coord \<Rightarrow> coord \<Rightarrow> bool
     \<Rightarrow> event list \<times> (nat list \<times> coord \<times> coord \<times> bool) option" where
  "pair_body trees current root frame mainCoordinates sweepCoordinates ranBefore =
     (case getNextFrame current root frame mainCoordinates sweepCoordinates ranBefore of
        None \<Rightarrow> ([], None)
      | Some (frame1, m, s, rb) \<Rightarrow>
          if frame1 ! 1 < length trees \<and> frame1 ! 3 < length trees
          then (let rootB = trees ! (frame1 ! 1);
                    rootD = trees ! (frame1 ! 3);
                    children = populateChildrenForE rootB []
                in case match_loop frame1 children rootD 0 of
                     (evs, None) \<Rightarrow> (Visit m s # evs, None)
                   | (evs, Some frame2) \<Rightarrow> (Visit m s # evs, Some (frame2, m, s, rb)))
          else ([Visit m s], None))"

text \<open>The loop of line 335, with \<open>n\<close> turns left (\<open>max - pos\<close>).\<close>

fun pair_loop ::
  "tops \<Rightarrow> nat \<Rightarrow> top \<Rightarrow> nat list \<Rightarrow> coord \<Rightarrow> coord \<Rightarrow> bool \<Rightarrow> nat
     \<Rightarrow> event list \<times> nat list option" where
  "pair_loop trees current root frame m s rb 0 = ([], Some frame)"
| "pair_loop trees current root frame m s rb (Suc n) =
     (case pair_body trees current root frame m s rb of
        (evs, None) \<Rightarrow> (evs, None)
      | (evs, Some (frame', m', s', rb')) \<Rightarrow>
          (case pair_loop trees current root frame' m' s' rb' n of
             (evs', r) \<Rightarrow> (evs @ evs', r)))"

text \<open>The body of the loop of line 316, for one root.\<close>

definition search_root :: "tops \<Rightarrow> nat list \<Rightarrow> nat \<Rightarrow> event list \<times> nat list option" where
  "search_root trees frame current =
     (if current < length trees
      then (let root = trees ! current;
                max = maximum root
            in case pair_loop trees current root frame (0, 0) (0, 0) False max of
                 (evs, r) \<Rightarrow> (Root current # evs, r))
      else ([], None))"

fun roots_loop :: "tops \<Rightarrow> nat list \<Rightarrow> nat list \<Rightarrow> event list \<times> nat list option" where
  "roots_loop trees frame [] = ([], Some frame)"
| "roots_loop trees frame (current # rest) =
     (case search_root trees frame current of
        (evs, None) \<Rightarrow> (evs, None)
      | (evs, Some frame') \<Rightarrow>
          (case roots_loop trees frame' rest of (evs', r) \<Rightarrow> (evs @ evs', r)))"

text \<open>The value every slot of the frame starts with, line 309.\<close>

definition sentinel :: nat where
  "sentinel = 1234578"

text \<open>The search phase of \<open>main\<close>, lines 309 and 316 to 368.\<close>

definition search :: "tops \<Rightarrow> event list \<times> nat list option" where
  "search trees = roots_loop trees (replicate 9 sentinel) [0..<length trees]"

subsection \<open>The output\<close>

text \<open>\<open>reverseDictionary[k]\<close>: the string read, and the map afterwards.\<close>

definition rd_index :: "rdict \<Rightarrow> nat \<Rightarrow> string \<times> rdict" where
  "rd_index rd k =
     (case map_of rd k of None \<Rightarrow> ([], rd @ [(k, [])]) | Some w \<Rightarrow> (w, rd))"

text \<open>\<open>outPutAll\<close>, lines 149 to 161: one line for each slot of the frame it is given.\<close>

fun outPutAll :: "nat list \<Rightarrow> rdict \<Rightarrow> string list \<times> rdict" where
  "outPutAll [] rd = ([], rd)"
| "outPutAll (x # frame) rd =
     (case rd_index rd x of
        (w, rd1) \<Rightarrow> (case outPutAll frame rd1 of (ls, rd2) \<Rightarrow> (w # ls, rd2)))"

definition divider :: string where
  "divider = ''/////////////////////////////////''"

fun render :: "event list \<Rightarrow> rdict \<Rightarrow> string list \<times> rdict" where
  "render [] rd = ([], rd)"
| "render (Root current # evs) rd =
     (case rd_index rd current of
        (w, rd1) \<Rightarrow> (case render evs rd1 of (ls, rd2) \<Rightarrow> ((''root: '' @ w) # ls, rd2)))"
| "render (Visit m s # evs) rd = render evs rd"
| "render (Emit frame # evs) rd =
     (case outPutAll frame rd of
        (ws, rd1) \<Rightarrow> (case render evs rd1 of (ls, rd2) \<Rightarrow> (divider # ws @ ls, rd2)))"

text \<open>
  \<open>main\<close>: the lines written to \<open>cout\<close>, and whether the program reached
  \<open>return 0\<close> with every read in range.
\<close>

definition main_output :: "string list \<Rightarrow> bool \<Rightarrow> string list \<times> bool" where
  "main_output toks tr =
     (case load toks tr of
        None \<Rightarrow> ([''dictionary loaded''], False)
      | Some (trees, dictionary, rd) \<Rightarrow>
          (case search trees of
             (evs, r) \<Rightarrow>
               ([''dictionary loaded'', ''begin search phase''] @ fst (render evs rd), r \<noteq> None)))"

text \<open>The frames handed to \<open>outPutAll\<close> and the coordinate pairs visited, in order.\<close>

fun emitted :: "event list \<Rightarrow> nat list list" where
  "emitted [] = []"
| "emitted (Emit f # evs) = f # emitted evs"
| "emitted (e # evs) = emitted evs"

fun visits :: "event list \<Rightarrow> (coord \<times> coord) list" where
  "visits [] = []"
| "visits (Visit m s # evs) = (m, s) # visits evs"
| "visits (e # evs) = visits evs"

subsection \<open>Notions used in the statements\<close>

text \<open>
  The reserved slots of the frame, as line 309 leaves them, and what \<open>getNextFrame\<close>
  and \<open>getNext\<close> have written into the other slots when a frame is handed to
  \<open>outPutAll\<close>.
\<close>

definition reserved_ok :: "nat list \<Rightarrow> bool" where
  "reserved_ok f \<longleftrightarrow> length f = 9 \<and> f ! 5 = sentinel \<and> f ! 7 = sentinel \<and> f ! 8 = sentinel"

definition frame_ok :: "tops \<Rightarrow> nat list \<Rightarrow> bool" where
  "frame_ok trees f \<longleftrightarrow>
     reserved_ok f
     \<and> f ! 0 < length trees
     \<and> (\<exists>e \<in> set (trees ! (f ! 0)). fst e = f ! 1 \<and> f ! 2 \<in> set (snd e))
     \<and> (\<exists>e \<in> set (trees ! (f ! 0)). fst e = f ! 3 \<and> f ! 6 \<in> set (snd e))
     \<and> f ! 1 < length trees \<and> f ! 3 < length trees
     \<and> f ! 4 \<in> fst ` set (trees ! (f ! 1))
     \<and> f ! 4 \<in> fst ` set (trees ! (f ! 3))"

text \<open>\<open>L\<close>: the number of leaves of a root, over all its branch entries.\<close>

definition leaf_count :: "top \<Rightarrow> nat" where
  "leaf_count root = sum_list (map (\<lambda>e. length (snd e)) root)"



text \<open>
  The flattened positions of a root: its (branch index, leaf index) pairs in the order
  of the branch list and of each leaf vector. The upper triangle of a list, diagonal
  included, row by row. The order of coordinates.
\<close>

fun coords_from :: "nat \<Rightarrow> top \<Rightarrow> coord list" where
  "coords_from i [] = []"
| "coords_from i (e # root) = map (Pair i) [0..<length (snd e)] @ coords_from (Suc i) root"

definition coords :: "top \<Rightarrow> coord list" where
  "coords root = coords_from 0 root"

fun triangle :: "'a list \<Rightarrow> ('a \<times> 'a) list" where
  "triangle [] = []"
| "triangle (c # cs) = map (Pair c) (c # cs) @ triangle cs"

definition coord_le :: "coord \<Rightarrow> coord \<Rightarrow> bool" where
  "coord_le m s \<longleftrightarrow> fst m < fst s \<or> (fst m = fst s \<and> snd m \<le> snd s)"

section \<open>Properties\<close>

subsection \<open>The vocabulary\<close>

lemma idx_touch: "idx (touch d w) v = idx d v"
  by (auto simp: idx_def touch_def split: option.splits if_splits)

lemma intern_idem: "intern (intern d w) w = intern d w"
  by (auto simp: intern_def count_key_def)

lemma loadDictionary_loop_eof: "eofbit s \<Longrightarrow> loadDictionary_loop s w d = d"
  by (simp add: loadDictionary_loop.simps)

lemma loadDictionary_loop_fold:
  "\<not> eofbit s \<Longrightarrow>
   loadDictionary_loop s w d =
     (if pending s = [] then intern d w else fold (\<lambda>w d. intern d w) (pending s) d)"
proof (induction s w d rule: loadDictionary_loop.induct)
  case (1 vocab word dictionary)
  show ?case
  proof (cases "pending vocab")
    case Nil
    with "1.prems" show ?thesis
      by (simp add: loadDictionary_loop.simps [of vocab] get_word_def
            loadDictionary_loop_eof)
  next
    case (Cons t ts)
    let ?s' = "vocab\<lparr>pending := ts, eofbit := (ts = [] \<and> \<not> trailing vocab)\<rparr>"
    have step: "loadDictionary_loop vocab word dictionary =
                loadDictionary_loop ?s' t (intern dictionary t)"
      using "1.prems" Cons by (simp add: loadDictionary_loop.simps [of vocab] get_word_def)
    show ?thesis
    proof (cases "eofbit ?s'")
      case True
      then have "ts = []" by simp
      with True step Cons show ?thesis
        by (simp add: loadDictionary_loop_eof)
    next
      case False
      have gw: "get_word vocab word = (?s', t)"
        using "1.prems" Cons by (simp add: get_word_def)
      from "1.IH" [OF "1.prems" gw [symmetric] False]
      have "loadDictionary_loop ?s' t (intern dictionary t) =
            (if ts = [] then intern (intern dictionary t) t
             else fold (\<lambda>w d. intern d w) ts (intern dictionary t))"
        by simp
      with step Cons show ?thesis by (simp add: intern_idem)
    qed
  qed
qed

lemma loadDictionary_fold:
  "loadDictionary toks tr d =
     (if toks = [] then intern d [] else fold (\<lambda>w d. intern d w) toks d)"
  using loadDictionary_loop_fold [of "fopen toks tr" "[]" d]
  by (simp add: loadDictionary_def fopen_def)

lemma fold_intern_keys:
  "map snd d = [0..<length d] \<Longrightarrow>
   map snd (fold (\<lambda>w d. intern d w) toks d) = [0..<length (fold (\<lambda>w d. intern d w) toks d)]
   \<and> map fst (fold (\<lambda>w d. intern d w) toks d) = map fst d @ rev (remdups (rev (filter (\<lambda>w. w \<notin> fst ` set d) toks)))"
proof (induction toks arbitrary: d rule: rev_induct)
  case Nil
  then show ?case by simp
next
  case (snoc x xs)
  let ?d = "fold (\<lambda>w d. intern d w) xs d"
  from snoc.IH [OF snoc.prems]
  have a: "map snd ?d = [0..<length ?d]"
    and b: "map fst ?d = map fst d @ rev (remdups (rev (filter (\<lambda>w. w \<notin> fst ` set d) xs)))"
    by simp_all
  have keys: "fst ` set ?d = fst ` set d \<union> set xs"
  proof -
    have "fst ` set ?d = set (map fst ?d)" by simp
    also have "\<dots> = fst ` set d \<union> set xs" unfolding b by auto
    finally show ?thesis .
  qed
  have cnt: "count_key ?d x = 0 \<longleftrightarrow> x \<notin> fst ` set d \<union> set xs"
    unfolding keys [symmetric] by (simp add: count_key_def map_of_eq_None_iff)
  show ?case
    using a b cnt by (auto simp: intern_def)
qed

lemma loadDictionary_closed:
  assumes "toks \<noteq> []"
  shows "map fst (loadDictionary toks tr []) = rev (remdups (rev toks))"
    and "map snd (loadDictionary toks tr []) = [0..<length (loadDictionary toks tr [])]"
  using assms fold_intern_keys [of "[]" toks] by (simp_all add: loadDictionary_fold)

text \<open>
  Where the first extraction succeeds, that is for a corpus with at least one token,
  with or without white space after the last one, \<open>loadDictionary\<close> interns the
  tokens and nothing else: the dictionary has as many entries as the corpus has
  distinct tokens; its keys are the tokens in the order of their first occurrence and
  its ids are \<open>0, 1, 2, ..\<close> in that order; interning a token of the corpus again
  changes nothing.
\<close>

lemma loadDictionary_vocabulary:
  assumes "toks \<noteq> []"
  shows "length (loadDictionary toks tr []) = card (set toks)
       \<and> map fst (loadDictionary toks tr []) = rev (remdups (rev toks))
       \<and> map snd (loadDictionary toks tr []) = [0..<card (set toks)]
       \<and> (\<forall>w \<in> set toks. intern (loadDictionary toks tr []) w = loadDictionary toks tr [])"
proof -
  let ?d = "loadDictionary toks tr []"
  have keys: "map fst ?d = rev (remdups (rev toks))"
    by (rule loadDictionary_closed [OF assms])
  have "length ?d = length (map fst ?d)" by simp
  also have "\<dots> = card (set toks)"
    unfolding keys by (simp add: length_remdups_card_conv)
  finally have len: "length ?d = card (set toks)" .
  have ids: "map snd ?d = [0..<card (set toks)]"
    using loadDictionary_closed(2) [OF assms, of tr] len by simp
  have "fst ` set ?d = set toks"
  proof -
    have "fst ` set ?d = set (map fst ?d)" by simp
    also have "\<dots> = set toks" unfolding keys by simp
    finally show ?thesis .
  qed
  then have "\<forall>w \<in> set toks. intern ?d w = ?d"
    by (auto simp: intern_def count_key_def map_of_eq_None_iff)
  with len keys ids show ?thesis by simp
qed

lemma loadDictionary_vocabulary_example:
  "length (loadDictionary [''a'', ''b'', ''a''] True []) = 2
   \<and> map fst (loadDictionary [''a'', ''b'', ''a''] True []) = [''a'', ''b'']
   \<and> map snd (loadDictionary [''a'', ''b'', ''a''] True []) = [0, 1]
   \<and> intern (loadDictionary [''a'', ''b'', ''a''] True []) ''b''
       = loadDictionary [''a'', ''b'', ''a''] True []"
proof -
  have c: "card (set [''a'', ''b'', ''a'']) = 2" by (simp add: card_insert_if)
  have u: "[0..<2] = [0, Suc 0]" by (simp add: upt_rec)
  show ?thesis
    using loadDictionary_vocabulary [of "[''a'', ''b'', ''a'']" True] unfolding c u by simp
qed

text \<open>
  C6. The vocabulary and the failed extraction. No \<open>>>\<close> of the program is checked,
  and the word a failed extraction leaves empty is used as if it were a token. On the
  empty corpus the loop of \<open>loadDictionary\<close> runs once and interns the empty word: the
  dictionary has one entry though the corpus has no token. On the corpus \<open>a\<close> the
  second extraction of \<open>load\<close> fails and \<open>dictionary[oneBack]\<close> inserts the empty
  word with id 0: after the build the dictionary has two entries for one token, both
  with id 0, and the reverse dictionary gives the empty string for id 0.
\<close>

theorem vocabulary_failed_extraction:
  "loadDictionary [] False [] = [([], 0)]
   \<and> length (loadDictionary [] False []) \<noteq> card (set ([] :: string list))
   \<and> load [''a''] False = Some ([[(0, [])]], [(''a'', 0), ([], 0)], [(0, [])])"
proof -
  have a: "loadDictionary [] False [] = [([], 0)]"
    by (simp add: loadDictionary_fold intern_def count_key_def)
  have b: "length (loadDictionary [] False []) \<noteq> card (set ([] :: string list))"
    by (simp add: a)
  have c: "load [''a''] False = Some ([[(0, [])]], [(''a'', 0), ([], 0)], [(0, [])])"
    by code_simp
  show ?thesis by (intro conjI a b c)
qed


subsection \<open>The forest built by \<open>load\<close>\<close>

lemma branch_scan_finds:
  "\<exists>j. i \<le> j \<and> j < length root \<and> fst (root ! j) = x \<Longrightarrow>
   \<exists>k. branch_scan root x i = Some k \<and> k < length root \<and> fst (root ! k) = x"
proof (induction root x i rule: branch_scan.induct)
  case (1 root x i)
  from "1.prems" obtain j where j: "i \<le> j" "j < length root" "fst (root ! j) = x"
    by blast
  then have ir: "i < length root" by simp
  show ?case
  proof (cases "fst (root ! i) = x")
    case True
    with ir show ?thesis by (simp add: branch_scan.simps [of root x i])
  next
    case False
    with j have "Suc i \<le> j" by (cases "i = j") auto
    with j have "\<exists>j. Suc i \<le> j \<and> j < length root \<and> fst (root ! j) = x" by blast
    from "1.IH" [OF ir False this] ir False show ?thesis
      by (simp add: branch_scan.simps [of root x i])
  qed
qed

lemma branch_scan_member:
  assumes "x \<in> fst ` set root"
  shows "\<exists>k. branch_scan root x 0 = Some k \<and> k < length root \<and> fst (root ! k) = x"
proof -
  from assms obtain e where "e \<in> set root" "fst e = x" by auto
  then obtain j where "j < length root" "root ! j = e" by (auto simp: in_set_conv_nth)
  with \<open>fst e = x\<close> have "\<exists>j. 0 \<le> j \<and> j < length root \<and> fst (root ! j) = x" by auto
  then show ?thesis by (rule branch_scan_finds)
qed

lemma load_body_ok:
  assumes r: "idx dictionary twoBack < length trees"
    and b: "idx dictionary oneBack \<in> fst ` set (trees ! idx dictionary twoBack)"
  shows "\<exists>trees' d'. load_body word oneBack twoBack dictionary trees = Some (trees', d')
           \<and> length trees' = length trees
           \<and> (\<forall>v. idx d' v = idx dictionary v)
           \<and> (\<forall>q. q \<noteq> idx dictionary twoBack \<longrightarrow> trees' ! q = trees ! q)
           \<and> idx dictionary oneBack \<in> fst ` set (trees' ! idx dictionary twoBack)"
proof -
  let ?d = "touch (touch (touch dictionary twoBack) word) oneBack"
  let ?r = "idx dictionary twoBack"
  let ?w = "idx dictionary word"
  let ?b = "idx dictionary oneBack"
  define root1 where
    "root1 = (if doesNotContain (trees ! ?r) ?w then (trees ! ?r) @ [(?w, [])] else trees ! ?r)"
  have ids: "idx ?d v = idx dictionary v" for v by (simp add: idx_touch)
  have b1: "?b \<in> fst ` set root1" using b by (auto simp: root1_def)
  from branch_scan_member [OF this]
  obtain i where i: "branch_scan root1 ?b 0 = Some i" "i < length root1" "fst (root1 ! i) = ?b"
    by blast
  define root2 where
    "root2 = (if leaf_scan (snd (root1 ! i)) ?w 0 = length (snd (root1 ! i))
              then root1[i := (fst (root1 ! i), snd (root1 ! i) @ [?w])] else root1)"
  have "load_body word oneBack twoBack dictionary trees =
          (let d = ?d; r = idx d twoBack; w = idx d word; b = idx d oneBack
           in if r < length trees
              then (let root1 = (if doesNotContain (trees ! r) w then (trees ! r) @ [(w, [])]
                                 else trees ! r)
                    in case branch_scan root1 b 0 of
                         None \<Rightarrow> None
                       | Some i \<Rightarrow>
                           (let k = leaf_scan (snd (root1 ! i)) w 0;
                                root2 = (if k = length (snd (root1 ! i))
                                         then root1[i := (fst (root1 ! i), snd (root1 ! i) @ [w])]
                                         else root1)
                            in Some (trees[r := root2], d)))
              else None)"
    by (simp only: load_body_def)
  also have "\<dots> = Some (trees[?r := root2], ?d)"
    unfolding Let_def ids root1_def [symmetric] using r i(1) by (simp add: root2_def)
  finally have eq: "load_body word oneBack twoBack dictionary trees = Some (trees[?r := root2], ?d)" .
  have "map fst root2 = map fst root1"
    using i(2) by (simp add: root2_def map_update list_update_same_conv)
  then have "fst ` set root2 = fst ` set root1"
    by (metis list.set_map)
  with b1 have "?b \<in> fst ` set ((trees[?r := root2]) ! ?r)"
    using r by simp
  with eq ids r show ?thesis by simp
qed

lemma load_loop_eof: "eofbit inp \<Longrightarrow> load_loop inp w ob tb d trees = Some (trees, d)"
  by (simp add: load_loop.simps)

lemma load_loop_ok:
  assumes "idx dictionary twoBack < length trees"
    and "idx dictionary oneBack \<in> fst ` set (trees ! idx dictionary twoBack)"
  shows "\<exists>trees' d'. load_loop inp word oneBack twoBack dictionary trees = Some (trees', d')
           \<and> length trees' = length trees
           \<and> (\<forall>q. q \<noteq> idx dictionary twoBack \<longrightarrow> trees' ! q = trees ! q)"
  using assms
proof (induction inp word oneBack twoBack dictionary trees rule: load_loop.induct)
  case (1 inp word oneBack twoBack dictionary trees)
  show ?case
  proof (cases "eofbit inp")
    case True
    then show ?thesis by (simp add: load_loop_eof)
  next
    case False
    obtain inp' word' where gw: "get_word inp word = (inp', word')" by (cases "get_word inp word")
    from load_body_ok [OF "1.prems", of word']
    obtain t1 d1 where body: "load_body word' oneBack twoBack dictionary trees = Some (t1, d1)"
      and len: "length t1 = length trees"
      and ids: "\<And>v. idx d1 v = idx dictionary v"
      and same: "\<And>q. q \<noteq> idx dictionary twoBack \<Longrightarrow> t1 ! q = trees ! q"
      and br: "idx dictionary oneBack \<in> fst ` set (t1 ! idx dictionary twoBack)"
      by blast
    have "\<exists>trees' d'. load_loop inp' word' oneBack twoBack d1 t1 = Some (trees', d')
           \<and> length trees' = length t1
           \<and> (\<forall>q. q \<noteq> idx d1 twoBack \<longrightarrow> trees' ! q = t1 ! q)"
      by (rule "1.IH" [OF False gw [symmetric] body refl]) (simp_all add: ids len "1.prems" br)
    then show ?thesis
      using False gw body len same
      by (simp add: load_loop.simps [of inp word oneBack twoBack dictionary trees] ids)
  qed
qed

lemma first_token_id:
  "idx (loadDictionary toks tr []) (snd (get_word (fopen toks tr) [])) = 0
   \<and> 0 < length (loadDictionary toks tr [])"
proof (cases toks)
  case Nil
  then show ?thesis
    by (simp add: loadDictionary_fold intern_def count_key_def get_word_def fopen_def idx_def)
next
  case (Cons t ts)
  let ?d = "fold (\<lambda>w d. intern d w) ts [(t, 0)]"
  have d0: "loadDictionary toks tr [] = ?d"
    using Cons by (simp add: loadDictionary_fold intern_def count_key_def)
  from fold_intern_keys [of "[(t, 0)]" ts]
  have s: "map snd ?d = [0..<length ?d]" and f: "map fst ?d = t # rev (remdups (rev (filter (\<lambda>w. w \<noteq> t) ts)))"
    by simp_all
  from f obtain e es where des: "?d = e # es" and "fst e = t"
    by (cases ?d) auto
  have "snd e = hd (map snd ?d)" using des by simp
  also have "\<dots> = hd [0..<length ?d]" using s by simp
  also have "\<dots> = 0" by (rule hd_upt) (simp add: des)
  finally have "snd e = 0" .
  with \<open>fst e = t\<close> have "e = (t, 0)" by (cases e) simp
  with des have "idx ?d t = 0 \<and> 0 < length ?d" by (simp add: idx_def)
  with d0 Cons show ?thesis by (simp add: get_word_def fopen_def)
qed

lemma load_ok:
  "\<exists>trees d rd. load toks tr = Some (trees, d, rd)
     \<and> length trees = length (loadDictionary toks tr [])
     \<and> (\<forall>q. q \<noteq> 0 \<longrightarrow> q < length trees \<longrightarrow> trees ! q = [])"
proof -
  let ?d0 = "loadDictionary toks tr []"
  let ?g1 = "get_word (fopen toks tr) []"
  let ?g2 = "get_word (fst ?g1) []"
  let ?tb = "snd ?g1" and ?ob = "snd ?g2"
  let ?d1 = "touch (touch ?d0 ?ob) ?tb"
  let ?t0 = "replicate (length ?d0) ([] :: top)"
  let ?t1 = "?t0[0 := [(idx ?d0 ?ob, [])]]"
  from first_token_id [of toks tr]
  have r0: "idx ?d0 ?tb = 0" and n: "0 < length ?d0" by simp_all
  have r1: "idx ?d1 ?tb = 0" by (simp add: idx_touch r0)
  have pre: "idx ?d1 ?tb < length ?t1" using n by (simp add: r1)
  have br: "idx ?d1 ?ob \<in> fst ` set (?t1 ! idx ?d1 ?tb)"
    using n by (simp add: r1 r0 idx_touch)
  from load_loop_ok [OF pre br, of "fst ?g2" "[]"]
  obtain trees d where loop: "load_loop (fst ?g2) [] ?ob ?tb ?d1 ?t1 = Some (trees, d)"
    and len: "length trees = length ?t1"
    and same: "\<And>q. q \<noteq> 0 \<Longrightarrow> trees ! q = ?t1 ! q"
    unfolding r1 by blast
  have "load toks tr = Some (trees, d, reverseEntries d)"
    using n loop by (simp add: load_def Let_def split_beta r1)
  moreover have "\<forall>q. q \<noteq> 0 \<longrightarrow> q < length trees \<longrightarrow> trees ! q = []"
    using same len by simp
  ultimately show ?thesis using len by simp
qed

text \<open>
  C1. The build on the corpus \<open>a b c a b d\<close>. \<open>twoBack\<close> and \<open>oneBack\<close> are read
  before the loop and never shifted, so every word read afterwards becomes a branch of
  root \<open>a\<close> and a leaf of its branch \<open>b\<close>: the entry of \<open>a\<close> has the branches
  \<open>b, c, a, d\<close>, of which \<open>b\<close> has the leaves \<open>c, a, b, d\<close> and the others none, and
  the entries of \<open>b\<close>, \<open>c\<close> and \<open>d\<close> are empty. A window sliding over the corpus would
  give \<open>a\<close> the one branch \<open>b\<close> with leaves \<open>c, d\<close>, \<open>b\<close> the branch \<open>c\<close> with leaf
  \<open>a\<close>, and \<open>c\<close> the branch \<open>a\<close> with leaf \<open>b\<close>.
\<close>

theorem load_trigram_corpus:
  "load [''a'', ''b'', ''c'', ''a'', ''b'', ''d''] False =
     Some ([[(1, [2, 0, 1, 3]), (2, []), (0, []), (3, [])], [], [], []],
           [(''a'', 0), (''b'', 1), (''c'', 2), (''d'', 3)],
           [(0, ''a''), (1, ''b''), (2, ''c''), (3, ''d'')])"
  by code_simp

text \<open>
  C10. For a corpus with at least one token, \<open>load\<close> returns a forest (no read of
  the build is out of range), with one entry for each distinct token, and every entry
  other than the one of the first token's id is empty: all branches and leaves are put
  on the first token's tree.
\<close>

theorem load_only_first_root:
  assumes "toks \<noteq> []"
  shows "\<exists>trees d rd. load toks tr = Some (trees, d, rd)
           \<and> length trees = card (set toks)
           \<and> idx (loadDictionary toks tr []) (hd toks) < length trees
           \<and> (\<forall>r < length trees. r \<noteq> idx (loadDictionary toks tr []) (hd toks)
                 \<longrightarrow> trees ! r = [])"
proof -
  from assms have tb: "snd (get_word (fopen toks tr) []) = hd toks"
    by (cases toks) (simp_all add: get_word_def fopen_def)
  from first_token_id [of toks tr] tb
  have r0: "idx (loadDictionary toks tr []) (hd toks) = 0"
    and n: "0 < length (loadDictionary toks tr [])" by simp_all
  have "length (loadDictionary toks tr []) = length (map fst (loadDictionary toks tr []))"
    by simp
  also have "\<dots> = card (set toks)"
    unfolding loadDictionary_closed(1) [OF assms] by (simp add: length_remdups_card_conv)
  finally have len: "length (loadDictionary toks tr []) = card (set toks)" .
  from load_ok [of toks tr] show ?thesis
    using r0 n len by auto
qed

theorem load_only_first_root_witness:
  "[''a'', ''b'', ''c'', ''a'', ''b'', ''d''] \<noteq> []
   \<and> (\<exists>trees d rd. load [''a'', ''b'', ''c'', ''a'', ''b'', ''d''] False = Some (trees, d, rd)
         \<and> length trees = 4 \<and> trees ! 0 \<noteq> [] \<and> trees ! 1 = [] \<and> trees ! 2 = [] \<and> trees ! 3 = [])"
proof -
  let ?toks = "[''a'', ''b'', ''c'', ''a'', ''b'', ''d'']"
  have ne: "?toks \<noteq> []" by simp
  have c: "card (set ?toks) = 4" by (simp add: card_insert_if)
  have i: "idx (loadDictionary ?toks False []) (hd ?toks) = 0" by code_simp
  from load_only_first_root [OF ne, of False]
  obtain trees d rd where l: "load ?toks False = Some (trees, d, rd)"
    and n: "length trees = 4"
    and e: "\<And>r. r < length trees \<Longrightarrow> r \<noteq> 0 \<Longrightarrow> trees ! r = []"
    unfolding c i by blast
  have "load ?toks False = Some ([[(1, [2, 0, 1, 3]), (2, []), (0, []), (3, [])], [], [], []],
           [(''a'', 0), (''b'', 1), (''c'', 2), (''d'', 3)],
           [(0, ''a''), (1, ''b''), (2, ''c''), (3, ''d'')])"
    by code_simp
  with l have "trees = [[(1, [2, 0, 1, 3]), (2, []), (0, []), (3, [])], [], [], []]"
    by simp
  then have "trees ! 0 \<noteq> []" by simp
  with l n e [of 1] e [of 2] e [of 3] show ?thesis by simp
qed

subsection \<open>The matcher\<close>

lemma dnc_loop_spec:
  "i < length root \<Longrightarrow>
   dnc_loop root x i < length root
   \<and> (fst (root ! dnc_loop root x i) \<noteq> x \<longleftrightarrow> (\<forall>k. i \<le> k \<and> k < length root \<longrightarrow> fst (root ! k) \<noteq> x))"
proof (induction root x i rule: dnc_loop.induct)
  case (1 root x i)
  show ?case
  proof (cases "i < length root - 1 \<and> fst (root ! i) \<noteq> x")
    case True
    then have s: "Suc i < length root" by linarith
    have eq: "dnc_loop root x i = dnc_loop root x (Suc i)"
      using True by (simp add: dnc_loop.simps [of root x i])
    have "(\<forall>k. i \<le> k \<and> k < length root \<longrightarrow> fst (root ! k) \<noteq> x)
          \<longleftrightarrow> (\<forall>k. Suc i \<le> k \<and> k < length root \<longrightarrow> fst (root ! k) \<noteq> x)"
      using True by (metis Suc_leI le_neq_implies_less Suc_leD)
    with "1.IH" [OF True s] eq show ?thesis by simp
  next
    case False
    then have eq: "dnc_loop root x i = i" by (subst dnc_loop.simps) auto
    show ?thesis
    proof (cases "fst (root ! i) = x")
      case True
      with eq "1.prems" show ?thesis by auto
    next
      case neq: False
      with False "1.prems" have "i = length root - 1" by simp
      then have "\<And>k. i \<le> k \<and> k < length root \<Longrightarrow> k = i" by linarith
      with eq neq "1.prems" show ?thesis by auto
    qed
  qed
qed

lemma dnc_loop_bound: "root \<noteq> [] \<Longrightarrow> dnc_loop root x 0 < length root"
  using dnc_loop_spec [of 0 root x] by simp

lemma doesNotContain_iff: "doesNotContain root x \<longleftrightarrow> x \<notin> fst ` set root"
proof (cases "root = []")
  case True
  then show ?thesis by (simp add: doesNotContain_def)
next
  case False
  then have "doesNotContain root x \<longleftrightarrow> (\<forall>k. k < length root \<longrightarrow> fst (root ! k) \<noteq> x)"
    using dnc_loop_spec [of 0 root x] by (simp add: doesNotContain_def)
  also have "\<dots> \<longleftrightarrow> (\<forall>e \<in> set root. fst e \<noteq> x)"
    by (simp add: all_set_conv_all_nth)
  also have "\<dots> \<longleftrightarrow> x \<notin> fst ` set root"
    by auto
  finally show ?thesis .
qed

lemma populateChildrenForE_eq: "populateChildrenForE root children = children @ map fst root"
  by (induction root arbitrary: children) simp_all

lemma getNext_skip_filter:
  "filter (\<lambda>c. c \<in> fst ` set root) (drop i children)
     = filter (\<lambda>c. c \<in> fst ` set root) (drop (getNext_skip children root i) children)
   \<and> (getNext_skip children root i < length children \<longrightarrow>
        children ! getNext_skip children root i \<in> fst ` set root)"
proof (induction children root i rule: getNext_skip.induct)
  case (1 children root i)
  show ?case
  proof (cases "i < length children \<and> doesNotContain root (children ! i)")
    case True
    then have eq: "getNext_skip children root i = getNext_skip children root (Suc i)"
      by (simp add: getNext_skip.simps [of children root i])
    from True have "drop i children = children ! i # drop (Suc i) children"
      by (simp add: Cons_nth_drop_Suc)
    with True "1.IH" [OF True] eq show ?thesis by (simp add: doesNotContain_iff)
  next
    case False
    then have "getNext_skip children root i = i"
      by (subst getNext_skip.simps) auto
    with False show ?thesis by (auto simp: doesNotContain_iff)
  qed
qed

lemma getNext_found:
  assumes "getNext_skip children root i < length children" and "framePos < length frame"
  shows "getNext frame children root i framePos =
           Some (frame[framePos := children ! getNext_skip children root i], True,
                 Suc (getNext_skip children root i))"
    and "filter (\<lambda>c. c \<in> fst ` set root) (drop i children) =
           children ! getNext_skip children root i #
           filter (\<lambda>c. c \<in> fst ` set root) (drop (Suc (getNext_skip children root i)) children)"
proof -
  let ?j = "getNext_skip children root i"
  from getNext_skip_filter [of root i children] assms(1)
  have f: "filter (\<lambda>c. c \<in> fst ` set root) (drop i children)
            = filter (\<lambda>c. c \<in> fst ` set root) (drop ?j children)"
    and m: "children ! ?j \<in> fst ` set root" by simp_all
  from m assms show "getNext frame children root i framePos =
           Some (frame[framePos := children ! ?j], True, Suc ?j)"
    by (simp add: getNext_def Let_def doesNotContain_iff)
  from assms(1) have "drop ?j children = children ! ?j # drop (Suc ?j) children"
    by (simp add: Cons_nth_drop_Suc)
  with f m show "filter (\<lambda>c. c \<in> fst ` set root) (drop i children) =
           children ! ?j # filter (\<lambda>c. c \<in> fst ` set root) (drop (Suc ?j) children)"
    by simp
qed

lemma getNext_exhausted:
  assumes "\<not> getNext_skip children root i < length children"
  shows "getNext frame children root i framePos =
           Some (frame, False, Suc (getNext_skip children root i))"
    and "filter (\<lambda>c. c \<in> fst ` set root) (drop i children) = []"
proof -
  from assms show "getNext frame children root i framePos =
           Some (frame, False, Suc (getNext_skip children root i))"
    by (simp add: getNext_def Let_def)
  from getNext_skip_filter [of root i children] assms
  show "filter (\<lambda>c. c \<in> fst ` set root) (drop i children) = []" by simp
qed

lemma match_loop_eq:
  assumes "4 < length frame"
  shows "match_loop frame children rootD i =
           (map (\<lambda>c. Emit (frame[4 := c])) (filter (\<lambda>c. c \<in> fst ` set rootD) (drop i children)),
            Some (fold (\<lambda>c f. f[4 := c]) (filter (\<lambda>c. c \<in> fst ` set rootD) (drop i children)) frame))"
  using assms
proof (induction frame children rootD i rule: match_loop.induct)
  case (1 frame children rootD i)
  let ?j = "getNext_skip children rootD i"
  show ?case
  proof (cases "?j < length children")
    case True
    note g = getNext_found [OF True "1.prems"]
    let ?f = "frame[4 := children ! ?j]"
    have len: "4 < length ?f" using "1.prems" by simp
    from "1.IH" [OF g(1) refl refl _ len]
    have ih: "match_loop ?f children rootD (Suc ?j) =
           (map (\<lambda>c. Emit (?f[4 := c])) (filter (\<lambda>c. c \<in> fst ` set rootD) (drop (Suc ?j) children)),
            Some (fold (\<lambda>c f. f[4 := c]) (filter (\<lambda>c. c \<in> fst ` set rootD) (drop (Suc ?j) children)) ?f))"
      by simp
    show ?thesis
      by (subst match_loop.simps) (simp add: g ih)
  next
    case False
    note g = getNext_exhausted [OF False]
    show ?thesis
      by (subst match_loop.simps) (simp add: g)
  qed
qed

subsection \<open>The frames handed to \<open>outPutAll\<close>\<close>

lemma emitted_append: "emitted (xs @ ys) = emitted xs @ emitted ys"
  by (induction xs rule: emitted.induct) simp_all

lemma visits_append: "visits (xs @ ys) = visits xs @ visits ys"
  by (induction xs rule: visits.induct) simp_all

lemma emitted_map_Emit: "emitted (map Emit fs) = fs"
  by (induction fs) simp_all

lemma visits_map_Emit: "visits (map Emit fs) = []"
  by (induction fs) simp_all

lemma fold_slot4:
  "4 < length f \<Longrightarrow>
   length (fold (\<lambda>c f. f[4 := c]) cs f) = length f
   \<and> (\<forall>i. i \<noteq> 4 \<longrightarrow> fold (\<lambda>c f. f[4 := c]) cs f ! i = f ! i)"
  by (induction cs arbitrary: f) simp_all

lemma getNextFrame_Some:
  assumes "getNextFrame current root frame m s rb = Some (frame1, m1, s1, rb1)"
  shows "6 < length frame"
    and "fst m1 < length root" and "snd m1 < length (snd (root ! fst m1))"
    and "fst s1 < length root" and "snd s1 < length (snd (root ! fst s1))"
    and "frame1 = frame[0 := current, 1 := fst (root ! fst m1),
                        2 := snd (root ! fst m1) ! snd m1,
                        3 := fst (root ! fst s1),
                        6 := snd (root ! fst s1) ! snd s1]"
    and "rb1 = True"
    and "(if rb then iterateCoordinates root m s else Some (m, s)) = Some (m1, s1)"
  using assms
  by (auto simp: getNextFrame_def split: option.splits if_splits prod.splits)

lemma pair_body_eq:
  assumes "getNextFrame current root frame m s rb = Some (frame1, m1, s1, rb1)"
    and "frame1 ! 1 < length trees" and "frame1 ! 3 < length trees"
  shows "pair_body trees current root frame m s rb =
           (Visit m1 s1 #
              map (\<lambda>c. Emit (frame1[4 := c]))
                (filter (\<lambda>c. c \<in> fst ` set (trees ! (frame1 ! 3))) (map fst (trees ! (frame1 ! 1)))),
            Some (fold (\<lambda>c f. f[4 := c])
                    (filter (\<lambda>c. c \<in> fst ` set (trees ! (frame1 ! 3))) (map fst (trees ! (frame1 ! 1))))
                    frame1, m1, s1, rb1))"
proof -
  from getNextFrame_Some(1,6) [OF assms(1)] have "4 < length frame1" by simp
  from match_loop_eq [OF this, of "map fst (trees ! (frame1 ! 1))" "trees ! (frame1 ! 3)" 0]
  show ?thesis
    using assms by (simp add: pair_body_def Let_def populateChildrenForE_eq)
qed

lemma pair_body_ok:
  assumes inv: "reserved_ok frame" and cur: "current < length trees"
    and body: "pair_body trees current (trees ! current) frame m s rb = (evs, r)"
  shows "(\<forall>f \<in> set (emitted evs). frame_ok trees f)
       \<and> (\<forall>fr m' s' rb'. r = Some (fr, m', s', rb') \<longrightarrow> reserved_ok fr)"
proof (cases "getNextFrame current (trees ! current) frame m s rb")
  case None
  with body show ?thesis by (auto simp: pair_body_def)
next
  case (Some a)
  then obtain frame1 m1 s1 rb1
    where g: "getNextFrame current (trees ! current) frame m s rb = Some (frame1, m1, s1, rb1)"
    by (cases a) auto
  note gs = getNextFrame_Some [OF g]
  let ?root = "trees ! current"
  have len: "length frame = 9" and r5: "frame ! 5 = sentinel" and r7: "frame ! 7 = sentinel"
    and r8: "frame ! 8 = sentinel"
    using inv by (simp_all add: reserved_ok_def)
  have f1: "length frame1 = 9" "frame1 ! 0 = current"
    "frame1 ! 1 = fst (?root ! fst m1)" "frame1 ! 2 = snd (?root ! fst m1) ! snd m1"
    "frame1 ! 3 = fst (?root ! fst s1)" "frame1 ! 6 = snd (?root ! fst s1) ! snd s1"
    "frame1 ! 5 = sentinel" "frame1 ! 7 = sentinel" "frame1 ! 8 = sentinel"
    using len r5 r7 r8 by (simp_all add: gs(6))
  show ?thesis
  proof (cases "frame1 ! 1 < length trees \<and> frame1 ! 3 < length trees")
    case False
    with g body show ?thesis by (auto simp: pair_body_def)
  next
    case True
    let ?M = "filter (\<lambda>c. c \<in> fst ` set (trees ! (frame1 ! 3))) (map fst (trees ! (frame1 ! 1)))"
    from pair_body_eq [OF g] True body
    have evs: "evs = Visit m1 s1 # map (\<lambda>c. Emit (frame1[4 := c])) ?M"
      and r: "r = Some (fold (\<lambda>c f. f[4 := c]) ?M frame1, m1, s1, rb1)"
      by simp_all
    have em: "emitted evs = map (\<lambda>c. frame1[4 := c]) ?M"
      using emitted_map_Emit [of "map (\<lambda>c. frame1[4 := c]) ?M"] by (simp add: evs comp_def)
    have e1: "?root ! fst m1 \<in> set ?root" and e3: "?root ! fst s1 \<in> set ?root"
      using gs(2,4) by simp_all
    have l2: "snd (?root ! fst m1) ! snd m1 \<in> set (snd (?root ! fst m1))"
      and l6: "snd (?root ! fst s1) ! snd s1 \<in> set (snd (?root ! fst s1))"
      using gs(3,5) by simp_all
    have "frame_ok trees (frame1[4 := c])" if "c \<in> set ?M" for c
    proof -
      from that have c1: "c \<in> fst ` set (trees ! (frame1 ! 1))"
        and c3: "c \<in> fst ` set (trees ! (frame1 ! 3))" by auto
      have b1: "\<exists>e \<in> set ?root. fst e = frame1 ! 1 \<and> frame1 ! 2 \<in> set (snd e)"
        using e1 l2 f1 by auto
      have b3: "\<exists>e \<in> set ?root. fst e = frame1 ! 3 \<and> frame1 ! 6 \<in> set (snd e)"
        using e3 l6 f1 by auto
      show ?thesis
        unfolding frame_ok_def reserved_ok_def
        using f1(1,2,7,8,9) cur True c1 c3 b1 b3 by simp
    qed
    then have A: "\<forall>f \<in> set (emitted evs). frame_ok trees f"
      unfolding em by auto
    from fold_slot4 [of frame1 ?M] f1(1)
    have "reserved_ok (fold (\<lambda>c f. f[4 := c]) ?M frame1)"
      by (simp add: reserved_ok_def f1)
    with A r show ?thesis by simp
  qed
qed

lemma pair_loop_ok:
  assumes "reserved_ok frame" and "current < length trees"
    and "pair_loop trees current (trees ! current) frame m s rb n = (evs, r)"
  shows "(\<forall>f \<in> set (emitted evs). frame_ok trees f) \<and> (\<forall>fr. r = Some fr \<longrightarrow> reserved_ok fr)"
  using assms
proof (induction n arbitrary: frame m s rb evs r)
  case 0
  then show ?case by auto
next
  case (Suc n)
  obtain evs1 r1 where b: "pair_body trees current (trees ! current) frame m s rb = (evs1, r1)"
    by (cases "pair_body trees current (trees ! current) frame m s rb")
  note ok = pair_body_ok [OF Suc.prems(1,2) b]
  show ?case
  proof (cases r1)
    case None
    with b Suc.prems(3) ok show ?thesis by auto
  next
    case (Some a)
    obtain fr m' s' rb' where a: "a = (fr, m', s', rb')" by (cases a)
    obtain evs2 r2 where l: "pair_loop trees current (trees ! current) fr m' s' rb' n = (evs2, r2)"
      by (cases "pair_loop trees current (trees ! current) fr m' s' rb' n")
    from ok Some a have "reserved_ok fr" by simp
    note ih = Suc.IH [OF this Suc.prems(2) l]
    from b Some a l Suc.prems(3) have "evs = evs1 @ evs2" "r = r2" by simp_all
    with ok ih show ?thesis by (auto simp: emitted_append)
  qed
qed

lemma search_root_ok:
  assumes "reserved_ok frame" and "search_root trees frame current = (evs, r)"
  shows "(\<forall>f \<in> set (emitted evs). frame_ok trees f) \<and> (\<forall>fr. r = Some fr \<longrightarrow> reserved_ok fr)"
proof (cases "current < length trees")
  case False
  with assms show ?thesis by (simp add: search_root_def)
next
  case True
  obtain evs1 r1 where l: "pair_loop trees current (trees ! current) frame (0, 0) (0, 0) False
                              (maximum (trees ! current)) = (evs1, r1)"
    by (cases "pair_loop trees current (trees ! current) frame (0, 0) (0, 0) False
                              (maximum (trees ! current))")
  from pair_loop_ok [OF assms(1) True l] assms(2) True l show ?thesis
    by (auto simp: search_root_def Let_def)
qed

lemma roots_loop_ok:
  assumes "reserved_ok frame" and "roots_loop trees frame cs = (evs, r)"
  shows "\<forall>f \<in> set (emitted evs). frame_ok trees f"
  using assms
proof (induction cs arbitrary: frame evs r)
  case Nil
  then show ?case by auto
next
  case (Cons c cs)
  obtain evs1 r1 where s: "search_root trees frame c = (evs1, r1)"
    by (cases "search_root trees frame c")
  note ok = search_root_ok [OF Cons.prems(1) s]
  show ?case
  proof (cases r1)
    case None
    with s Cons.prems(2) ok show ?thesis by auto
  next
    case (Some fr)
    obtain evs2 r2 where l: "roots_loop trees fr cs = (evs2, r2)"
      by (cases "roots_loop trees fr cs")
    from ok Some have "reserved_ok fr" by simp
    note ih = Cons.IH [OF this l]
    from s Some l Cons.prems(2) have "evs = evs1 @ evs2" by simp
    with ok ih show ?thesis by (auto simp: emitted_append)
  qed
qed

lemma replicate_9: "replicate 9 x = [x, x, x, x, x, x, x, x, x]"
  by (simp add: numeral_eq_Suc)

lemma search_frames_ok: "\<forall>f \<in> set (emitted (fst (search trees))). frame_ok trees f"
proof -
  have "reserved_ok (replicate 9 sentinel)"
    by (simp add: reserved_ok_def replicate_9)
  from roots_loop_ok [OF this, of trees "[0..<length trees]"] show ?thesis
    by (cases "search trees") (simp add: search_def)
qed

subsection \<open>Runs on given forests\<close>

text \<open>
  Rewrite rules that run the search on a forest written out. The forest of
  \<open>search_aab\<close> is the one \<open>load\<close> builds from the corpus \<open>a a b\<close>.
\<close>

lemma list_update_numeral: "(x # xs)[numeral k := y] = x # xs[pred_numeral k := y]"
  by (simp add: numeral_eq_Suc)

lemma pair_loop_numeral:
  "pair_loop trees current root frame m s rb (numeral k) =
     (case pair_body trees current root frame m s rb of
        (evs, None) \<Rightarrow> (evs, None)
      | (evs, Some (frame', m', s', rb')) \<Rightarrow>
          (case pair_loop trees current root frame' m' s' rb' (pred_numeral k) of
             (evs', r) \<Rightarrow> (evs @ evs', r)))"
  by (simp add: numeral_eq_Suc)

lemmas eval_simps =
  dnc_loop.simps getNext_skip.simps match_loop.simps doesNotContain_def getNext_def
  iterateCoordinates_def sweep_at_end_def advance_def size_minus_1_def
  maximum_def grandchildren_loop_def u32_def getNextFrame_def pair_body_def
  search_root_def search_def Let_def replicate_9 list_update_numeral pair_loop_numeral

lemma search_aab:
  "search [[(0, [1]), (1, [])], []] =
     ([Root 0, Visit (0, 0) (0, 0),
       Emit [0, 0, 1, 0, 0, sentinel, 1, sentinel, sentinel],
       Emit [0, 0, 1, 0, 1, sentinel, 1, sentinel, sentinel], Root 1],
      Some [0, 0, 1, 0, 1, sentinel, 1, sentinel, sentinel])"
  by (simp add: eval_simps)

text \<open>
  C3. Every frame handed to \<open>outPutAll\<close> has in slot 0 a root of the forest; slot 1 is
  the branch id of an entry of that root whose leaves contain slot 2, and slot 3 is the
  branch id of an entry of that root whose leaves contain slot 6. This holds for every
  forest, up to the point where a search that reads out of range stops.
\<close>

theorem emitted_frame_under_root:
  "\<forall>f \<in> set (emitted (fst (search trees))).
     f ! 0 < length trees
     \<and> (\<exists>e \<in> set (trees ! (f ! 0)). fst e = f ! 1 \<and> f ! 2 \<in> set (snd e))
     \<and> (\<exists>e \<in> set (trees ! (f ! 0)). fst e = f ! 3 \<and> f ! 6 \<in> set (snd e))"
  using search_frames_ok [of trees] unfolding frame_ok_def by blast

theorem emitted_frame_under_root_witness:
  "[0, 0, 1, 0, 1, sentinel, 1, sentinel, sentinel]
     \<in> set (emitted (fst (search [[(0, [1]), (1, [])], []])))
   \<and> (\<exists>e \<in> set (([[(0, [1]), (1, [])], []] :: tops) ! 0). fst e = 0 \<and> 1 \<in> set (snd e))"
proof -
  let ?f = "[0, 0, 1, 0, 1, sentinel, 1, sentinel, sentinel]"
  let ?T = "[[(0, [1]), (1, [])], []] :: tops"
  have m: "?f \<in> set (emitted (fst (search ?T)))" by (subst search_aab) simp
  from bspec [OF emitted_frame_under_root m]
  have "\<exists>e \<in> set (?T ! (?f ! 0)). fst e = ?f ! 1 \<and> ?f ! 2 \<in> set (snd e)" by blast
  then have e: "\<exists>e \<in> set (?T ! 0). fst e = 0 \<and> 1 \<in> set (snd e)" by simp
  show ?thesis by (rule conjI [OF m e])
qed

text \<open>
  C2. Every frame handed to \<open>outPutAll\<close> has in slot 4 a branch id of the forest entry
  indexed by slot 1 and a branch id of the entry indexed by slot 3. For one coordinate
  pair, with \<open>rootB\<close> and \<open>rootD\<close> the two entries, the loop around \<open>getNext\<close> hands
  over, in the order of \<open>rootB\<close>, one frame for each branch id of \<open>rootB\<close> that is also
  a branch id of \<open>rootD\<close>, and then ends; these frames differ from each other when the
  branch ids of \<open>rootB\<close> do; and once the cursor is past the branch ids of \<open>rootB\<close>,
  \<open>getNext\<close> reports no match and leaves the frame alone.
\<close>

theorem shared_continuation:
  "(\<forall>f \<in> set (emitted (fst (search trees))).
      f ! 1 < length trees \<and> f ! 3 < length trees
      \<and> f ! 4 \<in> fst ` set (trees ! (f ! 1)) \<and> f ! 4 \<in> fst ` set (trees ! (f ! 3)))
   \<and> (4 < length frame \<longrightarrow>
        (\<exists>final. match_loop frame (populateChildrenForE rootB []) rootD 0 =
           (map (\<lambda>c. Emit (frame[4 := c]))
              (filter (\<lambda>c. c \<in> fst ` set rootD) (map fst rootB)), Some final))
        \<and> (distinct (map fst rootB) \<longrightarrow>
             distinct (emitted (fst (match_loop frame (populateChildrenForE rootB []) rootD 0)))))
   \<and> (length (populateChildrenForE rootB []) \<le> i \<longrightarrow>
        getNext frame (populateChildrenForE rootB []) rootD i 4 = Some (frame, False, Suc i))"
proof -
  let ?M = "filter (\<lambda>c. c \<in> fst ` set rootD) (map fst rootB)"
  have a: "\<forall>f \<in> set (emitted (fst (search trees))).
      f ! 1 < length trees \<and> f ! 3 < length trees
      \<and> f ! 4 \<in> fst ` set (trees ! (f ! 1)) \<and> f ! 4 \<in> fst ` set (trees ! (f ! 3))"
    using search_frames_ok [of trees] unfolding frame_ok_def by blast
  have b: "\<exists>final. match_loop frame (populateChildrenForE rootB []) rootD 0 =
           (map (\<lambda>c. Emit (frame[4 := c])) ?M, Some final)"
    if "4 < length frame"
    using match_loop_eq [OF that, of "map fst rootB" rootD 0]
    by (simp add: populateChildrenForE_eq)
  have c: "distinct (emitted (fst (match_loop frame (populateChildrenForE rootB []) rootD 0)))"
    if len: "4 < length frame" and d: "distinct (map fst rootB)"
  proof -
    from b [OF len] have "emitted (fst (match_loop frame (populateChildrenForE rootB []) rootD 0))
        = emitted (map Emit (map (\<lambda>c. frame[4 := c]) ?M))"
      by (auto simp: comp_def)
    then have "emitted (fst (match_loop frame (populateChildrenForE rootB []) rootD 0))
        = map (\<lambda>c. frame[4 := c]) ?M"
      by (simp only: emitted_map_Emit)
    moreover have "inj_on (\<lambda>c. frame[4 := c]) (set ?M)"
    proof (rule inj_onI)
      fix x y assume "frame[4 := x] = frame[4 := y]"
      then have "frame[4 := x] ! 4 = frame[4 := y] ! 4" by simp
      with len show "x = y" by simp
    qed
    moreover have "distinct ?M" using d by simp
    ultimately show ?thesis by (simp add: distinct_map)
  qed
  have e: "getNext frame (populateChildrenForE rootB []) rootD i 4 = Some (frame, False, Suc i)"
    if "length (populateChildrenForE rootB []) \<le> i"
  proof -
    from that have "getNext_skip (populateChildrenForE rootB []) rootD i = i"
      by (subst getNext_skip.simps) simp
    with that show ?thesis by (simp add: getNext_def Let_def)
  qed
  from a b c e show ?thesis by blast
qed

theorem shared_continuation_witness:
  "[0, 0, 1, 0, 1, sentinel, 1, sentinel, sentinel]
     \<in> set (emitted (fst (search [[(0, [1]), (1, [])], []])))
   \<and> 1 \<in> fst ` set (([[(0, [1]), (1, [])], []] :: tops) ! 0)
   \<and> 4 < length [0, 0, 1, 0, sentinel, sentinel, 1, sentinel, sentinel]
   \<and> distinct (map fst [(0, [1 :: nat]), (1 :: nat, [])])
   \<and> fst (match_loop [0, 0, 1, 0, sentinel, sentinel, 1, sentinel, sentinel]
             (populateChildrenForE [(0, [1]), (1, [])] []) [(0, [1]), (1, [])] 0) =
        [Emit [0, 0, 1, 0, 0, sentinel, 1, sentinel, sentinel],
         Emit [0, 0, 1, 0, 1, sentinel, 1, sentinel, sentinel]]
   \<and> distinct (emitted (fst (match_loop [0, 0, 1, 0, sentinel, sentinel, 1, sentinel, sentinel]
             (populateChildrenForE [(0, [1]), (1, [])] []) [(0, [1]), (1, [])] 0)))
   \<and> length (populateChildrenForE [(0, [1 :: nat]), (1 :: nat, [])] []) \<le> 2
   \<and> getNext [0, 0, 1, 0, 1, sentinel, 1, sentinel, sentinel]
        (populateChildrenForE [(0, [1]), (1, [])] []) [(0, [1]), (1, [])] 2 4 =
        Some ([0, 0, 1, 0, 1, sentinel, 1, sentinel, sentinel], False, 3)"
proof -
  let ?f = "[0, 0, 1, 0, 1, sentinel, 1, sentinel, sentinel]"
  let ?g = "[0, 0, 1, 0, sentinel, sentinel, 1, sentinel, sentinel]"
  let ?B = "[(0, [1]), (1, [])] :: top"
  let ?T = "[?B, []] :: tops"
  note inst = shared_continuation [of ?T ?g ?B ?B 2]
  note inst2 = shared_continuation [of ?T ?f ?B ?B 2]
  have m: "?f \<in> set (emitted (fst (search ?T)))" by (subst search_aab) simp
  have len: "4 < length ?g" by simp
  have d: "distinct (map fst ?B)" by simp
  have ex: "length (populateChildrenForE ?B []) \<le> 2" by simp
  from inst m have "?f ! 4 \<in> fst ` set (?T ! (?f ! 1))" by blast
  then have p1: "1 \<in> fst ` set (?T ! 0)" by simp
  from inst len obtain final where
    "match_loop ?g (populateChildrenForE ?B []) ?B 0 =
       (map (\<lambda>c. Emit (?g[4 := c])) (filter (\<lambda>c. c \<in> fst ` set ?B) (map fst ?B)), Some final)"
    by blast
  then have p2: "fst (match_loop ?g (populateChildrenForE ?B []) ?B 0) =
      [Emit [0, 0, 1, 0, 0, sentinel, 1, sentinel, sentinel],
       Emit [0, 0, 1, 0, 1, sentinel, 1, sentinel, sentinel]]"
    by (simp add: list_update_numeral)
  from inst len d
  have p3: "distinct (emitted (fst (match_loop ?g (populateChildrenForE ?B []) ?B 0)))"
    by blast
  from inst2 ex
  have "getNext ?f (populateChildrenForE ?B []) ?B 2 4 = Some (?f, False, Suc 2)"
    by blast
  then have p4: "getNext ?f (populateChildrenForE ?B []) ?B 2 4 = Some (?f, False, 3)"
    by simp
  show ?thesis by (intro conjI m p1 len d p2 p3 ex p4)
qed

subsection \<open>Roots without leaves, short corpora\<close>

lemma u32_less: "u32 n < 2 ^ 32"
  by (simp add: u32_def)

lemma grandchildren_fold:
  "g < 2 ^ 32 \<Longrightarrow>
   fold (\<lambda>e g. u32 (g + length (snd e))) root g = u32 (g + leaf_count root)"
proof (induction root arbitrary: g)
  case Nil
  then show ?case by (simp add: leaf_count_def u32_def)
next
  case (Cons e es)
  have "fold (\<lambda>e g. u32 (g + length (snd e))) (e # es) g
        = fold (\<lambda>e g. u32 (g + length (snd e))) es (u32 (g + length (snd e)))"
    by simp
  also have "\<dots> = u32 (u32 (g + length (snd e)) + leaf_count es)"
    by (rule Cons.IH) (rule u32_less)
  also have "\<dots> = u32 (g + leaf_count (e # es))"
    by (simp add: u32_def leaf_count_def mod_add_left_eq add.assoc)
  finally show ?case .
qed

lemma grandchildren_loop_eq: "grandchildren_loop root = u32 (leaf_count root)"
  using grandchildren_fold [of 0 root] by (simp add: grandchildren_loop_def)

lemma maximum_triangular:
  assumes "leaf_count root * (leaf_count root + 1) < 2 ^ 32"
  shows "maximum root = leaf_count root * (leaf_count root + 1) div 2"
proof -
  let ?L = "leaf_count root"
  have "?L \<le> ?L * (?L + 1)" by simp
  with assms have l: "?L < 2 ^ 32" by linarith
  have l1: "?L + 1 < 2 ^ 32"
  proof (cases "?L = 0")
    case True
    then show ?thesis by simp
  next
    case False
    then have "1 * (?L + 1) \<le> ?L * (?L + 1)" by (intro mult_le_mono1) simp
    from this assms have "1 * (?L + 1) < 2 ^ 32" by (rule le_less_trans)
    then show ?thesis by simp
  qed
  have g: "grandchildren_loop root = ?L"
    using l by (simp add: grandchildren_loop_eq u32_def)
  have "u32 (?L * u32 (?L + 1)) = ?L * (?L + 1)"
    using l1 assms by (simp add: u32_def)
  then show ?thesis
    by (simp add: maximum_def g Let_def)
qed

lemma search_root_leafless:
  assumes "current < length trees" and "leaf_count (trees ! current) = 0"
  shows "search_root trees frame current = ([Root current], Some frame)"
proof -
  from assms(2) have "maximum (trees ! current) = 0"
    by (simp add: maximum_triangular)
  with assms(1) show ?thesis by (simp add: search_root_def)
qed

text \<open>
  C8. For a root of the forest whose leaf count \<open>L\<close> is 0 (an empty branch list, or
  branches without leaves), \<open>maximum\<close> is 0 and the loop over the coordinate pairs is
  not entered: the search writes the line of the root and nothing else, calls neither
  \<open>getNextFrame\<close> nor \<open>outPutAll\<close>, reads nothing out of range and leaves the frame as
  it was.
\<close>

theorem leafless_root_skipped:
  assumes "current < length trees" and "leaf_count (trees ! current) = 0"
  shows "search_root trees frame current = ([Root current], Some frame)"
  using assms by (rule search_root_leafless)

theorem leafless_root_skipped_witness:
  "0 < length ([[(1, [])], []] :: tops)
   \<and> leaf_count (([[(1, [])], []] :: tops) ! 0) = 0
   \<and> leaf_count (([[(1, [])], []] :: tops) ! 1) = 0
   \<and> search_root [[(1, [])], []] (replicate 9 sentinel) 0 = ([Root 0], Some (replicate 9 sentinel))
   \<and> search_root [[(1, [])], []] (replicate 9 sentinel) 1 = ([Root 1], Some (replicate 9 sentinel))"
proof -
  let ?T = "[[(1, [])], []] :: tops"
  have a: "0 < length ?T" and a1: "1 < length ?T" by simp_all
  have b: "leaf_count (?T ! 0) = 0" and b1: "leaf_count (?T ! 1) = 0"
    by (simp_all add: leaf_count_def)
  note r0 = leafless_root_skipped [OF a b, of "replicate 9 sentinel"]
  note r1 = leafless_root_skipped [OF a1 b1, of "replicate 9 sentinel"]
  show ?thesis by (intro conjI a b b1 r0 r1)
qed

lemma roots_loop_leafless:
  assumes "\<forall>c \<in> set cs. c < length trees \<and> leaf_count (trees ! c) = 0"
  shows "roots_loop trees frame cs = (map Root cs, Some frame)"
  using assms by (induction cs) (simp_all add: search_root_leafless)

lemma search_leafless:
  assumes "\<forall>root \<in> set trees. leaf_count root = 0"
  shows "search trees = (map Root [0..<length trees], Some (replicate 9 sentinel))"
  unfolding search_def using assms by (intro roots_loop_leafless) simp

lemma emitted_map_Root: "emitted (map Root cs) = []"
  by (induction cs) simp_all

lemma short_corpus_eof:
  assumes "length toks < 3" and "length toks = 2 \<longrightarrow> \<not> tr"
  shows "eofbit (fst (get_word (fst (get_word (fopen toks tr) [])) []))"
proof (cases toks)
  case Nil
  then show ?thesis by (simp add: get_word_def fopen_def)
next
  case (Cons a as)
  show ?thesis
  proof (cases as)
    case Nil
    with Cons show ?thesis by (simp add: get_word_def fopen_def)
  next
    case (Cons b bs)
    with \<open>toks = a # as\<close> assms have "bs = []" "\<not> tr" by simp_all
    with Cons \<open>toks = a # as\<close> show ?thesis by (simp add: get_word_def fopen_def)
  qed
qed

lemma load_short:
  assumes "length toks < 3" and "length toks = 2 \<longrightarrow> \<not> tr"
  shows "\<exists>x d rd. load toks tr =
           Some ([(x, [])] # replicate (length (loadDictionary toks tr []) - 1) [], d, rd)"
proof -
  let ?d0 = "loadDictionary toks tr []"
  let ?g1 = "get_word (fopen toks tr) []"
  let ?g2 = "get_word (fst ?g1) []"
  from first_token_id [of toks tr]
  have r0: "idx ?d0 (snd ?g1) = 0" and n: "0 < length ?d0" by simp_all
  from n obtain k where k: "length ?d0 = Suc k" by (cases "length ?d0") simp_all
  have "load toks tr =
          Some ((replicate (length ?d0) [])[0 := [(idx ?d0 (snd ?g2), [])]],
                touch (touch ?d0 (snd ?g2)) (snd ?g1),
                reverseEntries (touch (touch ?d0 (snd ?g2)) (snd ?g1)))"
    using n short_corpus_eof [OF assms]
    by (simp add: load_def Let_def split_beta idx_touch r0 load_loop_eof)
  then show ?thesis by (simp add: k)
qed

text \<open>
  C7. For a corpus of fewer than three tokens, where a corpus of two tokens ends with
  its second token: \<open>load\<close> returns a forest, with no read out of range; the forest
  has one branch entry, without leaves, in the entry of the first token (the
  \<open>firstBranch\<close> pushed at line 262), and no other branch and no leaf anywhere; the
  search hands no frame to \<open>outPutAll\<close> and ends with every read in range.
\<close>

theorem short_corpus:
  assumes "length toks < 3" and "length toks = 2 \<longrightarrow> \<not> tr"
  shows "\<exists>trees d rd x. load toks tr = Some (trees, d, rd)
           \<and> trees = [(x, [])] # replicate (length trees - 1) []
           \<and> (\<forall>root \<in> set trees. \<forall>e \<in> set root. snd e = [])
           \<and> emitted (fst (search trees)) = []
           \<and> snd (search trees) \<noteq> None"
proof -
  from load_short [OF assms] obtain x d rd where
    l: "load toks tr = Some ([(x, [])] # replicate (length (loadDictionary toks tr []) - 1) [], d, rd)"
    by blast
  let ?T = "[(x, [])] # replicate (length (loadDictionary toks tr []) - 1) ([] :: top)"
  have leaves: "\<forall>root \<in> set ?T. \<forall>e \<in> set root. snd e = []" by auto
  then have "\<forall>root \<in> set ?T. leaf_count root = 0"
    by (auto simp: leaf_count_def)
  from search_leafless [OF this]
  have "emitted (fst (search ?T)) = []" and "snd (search ?T) \<noteq> None"
    by (simp_all add: emitted_map_Root emitted_append)
  with l leaves show ?thesis by auto
qed

theorem short_corpus_witness:
  "length [''a'', ''b''] < 3
   \<and> (\<exists>trees d rd x. load [''a'', ''b''] False = Some (trees, d, rd)
         \<and> trees = [(x, [])] # replicate (length trees - 1) []
         \<and> emitted (fst (search trees)) = []
         \<and> snd (search trees) \<noteq> None)"
proof -
  have a: "length [''a'', ''b''] < 3" by simp
  have b: "length [''a'', ''b''] = 2 \<longrightarrow> \<not> False" by simp
  from short_corpus [OF a b] have
    "\<exists>trees d rd x. load [''a'', ''b''] False = Some (trees, d, rd)
         \<and> trees = [(x, [])] # replicate (length trees - 1) []
         \<and> emitted (fst (search trees)) = []
         \<and> snd (search trees) \<noteq> None"
    by blast
  with a show ?thesis by (rule conjI)
qed

text \<open>
  The corpus \<open>a b\<close> gives the root \<open>a\<close> the branch \<open>b\<close>: the forest is not empty.
  The corpus \<open>a a\<close> followed by a newline runs the loop of \<open>load\<close> once, on the word
  the failed extraction left empty, whose id the dictionary gives as 0: root \<open>a\<close> gets
  the leaf 0 under its branch \<open>a\<close>, and the search hands one frame to \<open>outPutAll\<close>.
\<close>

theorem short_corpus_counterexample:
  "load [''a'', ''b''] False =
     Some ([[(1, [])], []], [(''a'', 0), (''b'', 1)], [(0, ''a''), (1, ''b'')])
   \<and> load [''a'', ''a''] True = Some ([[(0, [0])]], [(''a'', 0), ([], 0)], [(0, [])])
   \<and> emitted (fst (search [[(0, [0])]])) = [[0, 0, 0, 0, 0, sentinel, 0, sentinel, sentinel]]"
proof -
  have a: "load [''a'', ''b''] False =
     Some ([[(1, [])], []], [(''a'', 0), (''b'', 1)], [(0, ''a''), (1, ''b'')])"
    by code_simp
  have b: "load [''a'', ''a''] True = Some ([[(0, [0])]], [(''a'', 0), ([], 0)], [(0, [])])"
    by code_simp
  have c: "emitted (fst (search [[(0, [0])]])) = [[0, 0, 0, 0, 0, sentinel, 0, sentinel, sentinel]]"
    by (simp add: eval_simps)
  show ?thesis by (intro conjI a b c)
qed

subsection \<open>What is written to \<open>cout\<close>\<close>



















subsection \<open>The coordinate enumeration\<close>

text \<open>
  \<open>iterateCoordinates\<close> and \<open>getNextFrame\<close> compute with \<open>size() - 1\<close> of the leaf
  vectors and read the leaf at the coordinate they reach: they step through the
  flattened positions of a root when every branch entry of the root has a leaf.
\<close>

lemma length_coords_from: "length (coords_from i root) = leaf_count root"
  by (induction root arbitrary: i) (simp_all add: leaf_count_def)

lemma coords_from_empty:
  "\<forall>e \<in> set root. snd e \<noteq> [] \<Longrightarrow> coords_from i root = [] \<longleftrightarrow> root = []"
  by (cases root) simp_all

lemma coords_from_hd:
  "root \<noteq> [] \<Longrightarrow> \<forall>e \<in> set root. snd e \<noteq> [] \<Longrightarrow> coords_from i root ! 0 = (i, 0)"
  by (cases root) (simp_all add: nth_append)

lemma coords_from_nth:
  assumes "\<forall>e \<in> set root. snd e \<noteq> []" and "j < length (coords_from (length pre) root)"
  shows "length pre \<le> fst (coords_from (length pre) root ! j)
       \<and> fst (coords_from (length pre) root ! j) < length (pre @ root)
       \<and> snd (coords_from (length pre) root ! j)
            < length (snd ((pre @ root) ! fst (coords_from (length pre) root ! j)))
       \<and> (Suc j < length (coords_from (length pre) root) \<longrightarrow>
            coords_from (length pre) root ! Suc j =
              (if snd (coords_from (length pre) root ! j)
                    = length (snd ((pre @ root) ! fst (coords_from (length pre) root ! j))) - 1
               then (Suc (fst (coords_from (length pre) root ! j)), 0)
               else (fst (coords_from (length pre) root ! j),
                     Suc (snd (coords_from (length pre) root ! j))))
            \<and> \<not> (fst (coords_from (length pre) root ! j) = length (pre @ root) - 1
                  \<and> snd (coords_from (length pre) root ! j)
                      = length (snd ((pre @ root) ! (length (pre @ root) - 1))) - 1))
       \<and> (Suc j = length (coords_from (length pre) root) \<longrightarrow>
            fst (coords_from (length pre) root ! j) = length (pre @ root) - 1
            \<and> snd (coords_from (length pre) root ! j)
                = length (snd ((pre @ root) ! (length (pre @ root) - 1))) - 1)"
  using assms
proof (induction root arbitrary: pre j)
  case Nil
  then show ?case by simp
next
  case (Cons e es)
  let ?i = "length pre"
  let ?n = "length (snd e)"
  let ?row = "map (Pair ?i) [0..<?n]"
  let ?rest = "coords_from (Suc ?i) es"
  let ?R = "pre @ e # es"
  have n: "0 < ?n" using Cons.prems(1) by simp
  have es: "\<forall>e \<in> set es. snd e \<noteq> []" using Cons.prems(1) by simp
  have cs: "coords_from ?i (e # es) = ?row @ ?rest" by simp
  have Ri: "?R ! ?i = e" by (simp add: nth_append)
  show ?case
  proof (cases "j < ?n")
    case True
    have cj: "coords_from ?i (e # es) ! j = (?i, j)"
      using True by (simp add: nth_append)
    show ?thesis
    proof (cases "es = []")
      case True
      with \<open>j < ?n\<close> cj Ri n show ?thesis
        by (auto simp: nth_append)
    next
      case False
      with es have r0: "?rest ! 0 = (Suc ?i, 0)" and rne: "?rest \<noteq> []"
        using coords_from_hd [of es "Suc ?i"] coords_from_empty [of es "Suc ?i"] by simp_all
      from False have lenR: "length ?R - 1 \<noteq> ?i" by (cases es) simp_all
      show ?thesis
      proof (cases "Suc j < ?n")
        case True
        with cj Ri rne lenR show ?thesis by (auto simp: nth_append)
      next
        case F: False
        with \<open>j < ?n\<close> have j: "Suc j = ?n" by simp
        then have "coords_from ?i (e # es) ! Suc j = ?rest ! 0"
          by (simp add: nth_append)
        with cj Ri rne lenR r0 j \<open>j < ?n\<close> show ?thesis
          by (auto simp: nth_append)
      qed
    qed
  next
    case False
    let ?j = "j - ?n"
    from False Cons.prems(2) have j': "?j < length (coords_from (length (pre @ [e])) es)"
      by simp
    have Req: "?R = (pre @ [e]) @ es" by simp
    have nthj: "coords_from ?i (e # es) ! j = coords_from (length (pre @ [e])) es ! ?j"
      using False by (simp add: nth_append)
    have nthSj: "coords_from ?i (e # es) ! Suc j = coords_from (length (pre @ [e])) es ! Suc ?j"
      using False by (simp add: nth_append Suc_diff_le)
    have lens: "Suc j < length (coords_from ?i (e # es))
                  \<longleftrightarrow> Suc ?j < length (coords_from (length (pre @ [e])) es)"
      "Suc j = length (coords_from ?i (e # es))
                  \<longleftrightarrow> Suc ?j = length (coords_from (length (pre @ [e])) es)"
      using False by auto
    from Cons.IH [OF es j'] show ?thesis
      unfolding nthj nthSj lens Req [symmetric] by auto
  qed
qed

lemma coords_valid:
  assumes "\<forall>e \<in> set root. snd e \<noteq> []" and "j < length (coords root)"
  shows "fst (coords root ! j) < length root"
    and "snd (coords root ! j) < length (snd (root ! fst (coords root ! j)))"
  using coords_from_nth [of root j "[]"] assms by (simp_all add: coords_def)

lemma coords_step:
  assumes "\<forall>e \<in> set root. snd e \<noteq> []" and "Suc j < length (coords root)"
  shows "advance root (coords root ! j) = Some (coords root ! Suc j)"
    and "sweep_at_end root (coords root ! j) = Some False"
proof -
  let ?c = "coords root ! j"
  from assms(2) have j: "j < length (coords root)" by simp
  note v = coords_valid [OF assms(1) j]
  from v(1) have ne: "root \<noteq> []" by auto
  from v(1) assms(1) have l: "snd (root ! fst ?c) \<noteq> []" by simp
  from ne assms(1) have ll: "snd (root ! (length root - 1)) \<noteq> []"
    by (simp add: last_conv_nth [symmetric])
  from coords_from_nth [of root j "[]"] assms
  have nx: "coords root ! Suc j =
              (if snd ?c = length (snd (root ! fst ?c)) - 1
               then (Suc (fst ?c), 0) else (fst ?c, Suc (snd ?c)))"
    and nl: "\<not> (fst ?c = length root - 1 \<and> snd ?c = length (snd (root ! (length root - 1))) - 1)"
    by (simp_all add: coords_def)
  show "advance root ?c = Some (coords root ! Suc j)"
    using v(1) l nx by (simp add: advance_def size_minus_1_def)
  show "sweep_at_end root ?c = Some False"
    using ne ll nl by (auto simp: sweep_at_end_def size_minus_1_def)
qed

lemma coords_last:
  assumes "\<forall>e \<in> set root. snd e \<noteq> []" and "Suc j = length (coords root)"
  shows "sweep_at_end root (coords root ! j) = Some True"
proof -
  let ?c = "coords root ! j"
  from assms(2) have j: "j < length (coords root)" by simp
  note v = coords_valid [OF assms(1) j]
  from v(1) have ne: "root \<noteq> []" by auto
  from ne assms(1) have ll: "snd (root ! (length root - 1)) \<noteq> []"
    by (simp add: last_conv_nth [symmetric])
  from coords_from_nth [of root j "[]"] assms j
  have "fst ?c = length root - 1 \<and> snd ?c = length (snd (root ! (length root - 1))) - 1"
    by (simp add: coords_def)
  with ne ll show ?thesis by (simp add: sweep_at_end_def size_minus_1_def)
qed

lemma iterate_sweep:
  assumes "\<forall>e \<in> set root. snd e \<noteq> []" and "Suc j < length (coords root)"
  shows "iterateCoordinates root m (coords root ! j) = Some (m, coords root ! Suc j)"
  using coords_step [OF assms] by (simp add: iterateCoordinates_def)

lemma iterate_main:
  assumes "\<forall>e \<in> set root. snd e \<noteq> []" and "Suc i < length (coords root)"
    and "Suc j = length (coords root)"
  shows "iterateCoordinates root (coords root ! i) (coords root ! j)
           = Some (coords root ! Suc i, coords root ! Suc i)"
  using coords_step(1) [OF assms(1,2)] coords_last [OF assms(1,3)]
  by (simp add: iterateCoordinates_def)

lemma pair_body_visit:
  assumes ne: "\<forall>e \<in> set root. snd e \<noteq> []"
    and ids: "\<forall>e \<in> set root. fst e < length trees"
    and len: "6 < length frame"
    and a: "a < length (coords root)" and b: "b < length (coords root)"
    and it: "(if rb then iterateCoordinates root m s else Some (m, s))
               = Some (coords root ! a, coords root ! b)"
  shows "\<exists>evs frame2. pair_body trees current root frame m s rb
             = (evs, Some (frame2, coords root ! a, coords root ! b, True))
           \<and> visits evs = [(coords root ! a, coords root ! b)]
           \<and> length frame2 = length frame"
proof -
  let ?m = "coords root ! a" and ?s = "coords root ! b"
  note va = coords_valid [OF ne a] and vb = coords_valid [OF ne b]
  let ?f1 = "frame[0 := current, 1 := fst (root ! fst ?m), 2 := snd (root ! fst ?m) ! snd ?m,
                   3 := fst (root ! fst ?s), 6 := snd (root ! fst ?s) ! snd ?s]"
  have g: "getNextFrame current root frame m s rb = Some (?f1, ?m, ?s, True)"
    using it len va vb by (simp add: getNextFrame_def)
  have "root ! fst ?m \<in> set root" and "root ! fst ?s \<in> set root"
    using va(1) vb(1) by simp_all
  with ids have "fst (root ! fst ?m) < length trees" and "fst (root ! fst ?s) < length trees"
    by blast+
  with len have r: "?f1 ! 1 < length trees" "?f1 ! 3 < length trees" by simp_all
  let ?M = "filter (\<lambda>c. c \<in> fst ` set (trees ! (?f1 ! 3))) (map fst (trees ! (?f1 ! 1)))"
  note eq = pair_body_eq [OF g r]
  have "visits (Visit ?m ?s # map (\<lambda>c. Emit (?f1[4 := c])) ?M) = [(?m, ?s)]"
    using visits_map_Emit [of "map (\<lambda>c. ?f1[4 := c]) ?M"] by (simp add: comp_def)
  moreover have "length (fold (\<lambda>c f. f[4 := c]) ?M ?f1) = length frame"
    using fold_slot4 [of ?f1 ?M] len by simp
  ultimately show ?thesis using eq by simp
qed

lemma length_triangle: "length (triangle cs) = length cs * (length cs + 1) div 2"
  by (induction cs) simp_all

lemma pair_loop_walk:
  assumes ne: "\<forall>e \<in> set root. snd e \<noteq> []"
    and ids: "\<forall>e \<in> set root. fst e < length trees"
  shows "6 < length frame \<Longrightarrow> a \<le> b \<Longrightarrow> b < length (coords root) \<Longrightarrow>
         n \<le> length (drop (Suc b) (coords root)) + length (triangle (drop (Suc a) (coords root))) \<Longrightarrow>
         visits (fst (pair_loop trees current root frame (coords root ! a) (coords root ! b) True n))
           = take n (map (Pair (coords root ! a)) (drop (Suc b) (coords root))
                     @ triangle (drop (Suc a) (coords root)))
         \<and> snd (pair_loop trees current root frame (coords root ! a) (coords root ! b) True n) \<noteq> None"
proof (induction n arbitrary: a b frame)
  case 0
  then show ?case by simp
next
  case (Suc n)
  let ?cs = "coords root"
  show ?case
  proof (cases "Suc b < length ?cs")
    case True
    from Suc.prems(2) True have a': "a < length ?cs" by simp
    have it: "(if True then iterateCoordinates root (?cs ! a) (?cs ! b) else Some (?cs ! a, ?cs ! b))
                = Some (?cs ! a, ?cs ! Suc b)"
      using iterate_sweep [OF ne True] by simp
    from pair_body_visit [OF ne ids Suc.prems(1) a' True it, of current]
    obtain evs frame2 where
      body: "pair_body trees current root frame (?cs ! a) (?cs ! b) True
               = (evs, Some (frame2, ?cs ! a, ?cs ! Suc b, True))"
      and v: "visits evs = [(?cs ! a, ?cs ! Suc b)]"
      and l: "length frame2 = length frame" by blast
    have d: "drop (Suc b) ?cs = ?cs ! Suc b # drop (Suc (Suc b)) ?cs"
      using True by (simp add: Cons_nth_drop_Suc)
    have bound: "n \<le> length (drop (Suc (Suc b)) ?cs) + length (triangle (drop (Suc a) ?cs))"
      using Suc.prems(4) True by simp
    have ab: "a \<le> Suc b" using Suc.prems(2) by simp
    from l Suc.prems(1) have l2: "6 < length frame2" by simp
    note ih = Suc.IH [OF l2 ab True bound]
    obtain evs' r where rest: "pair_loop trees current root frame2 (?cs ! a) (?cs ! Suc b) True n
                               = (evs', r)"
      by (cases "pair_loop trees current root frame2 (?cs ! a) (?cs ! Suc b) True n")
    with ih body v d show ?thesis by (simp add: visits_append)
  next
    case False
    with Suc.prems(3) have bl: "Suc b = length ?cs" by simp
    then have d0: "drop (Suc b) ?cs = []" by simp
    with Suc.prems(4) have "triangle (drop (Suc a) ?cs) \<noteq> []" by auto
    then have "drop (Suc a) ?cs \<noteq> []" by auto
    then have a': "Suc a < length ?cs" by simp
    have it: "(if True then iterateCoordinates root (?cs ! a) (?cs ! b) else Some (?cs ! a, ?cs ! b))
                = Some (?cs ! Suc a, ?cs ! Suc a)"
      using iterate_main [OF ne a' bl] by simp
    from pair_body_visit [OF ne ids Suc.prems(1) a' a' it, of current]
    obtain evs frame2 where
      body: "pair_body trees current root frame (?cs ! a) (?cs ! b) True
               = (evs, Some (frame2, ?cs ! Suc a, ?cs ! Suc a, True))"
      and v: "visits evs = [(?cs ! Suc a, ?cs ! Suc a)]"
      and l: "length frame2 = length frame" by blast
    have d: "drop (Suc a) ?cs = ?cs ! Suc a # drop (Suc (Suc a)) ?cs"
      using a' by (simp add: Cons_nth_drop_Suc)
    have bound: "n \<le> length (drop (Suc (Suc a)) ?cs) + length (triangle (drop (Suc (Suc a)) ?cs))"
      using Suc.prems(4) d0 d by simp
    from l Suc.prems(1) have l2: "6 < length frame2" by simp
    note ih = Suc.IH [OF l2 le_refl a' bound]
    obtain evs' r where rest: "pair_loop trees current root frame2 (?cs ! Suc a) (?cs ! Suc a) True n
                               = (evs', r)"
      by (cases "pair_loop trees current root frame2 (?cs ! Suc a) (?cs ! Suc a) True n")
    with ih body v d d0 show ?thesis by (simp add: visits_append)
  qed
qed

lemma search_root_visits:
  assumes cur: "current < length trees"
    and ne: "\<forall>e \<in> set (trees ! current). snd e \<noteq> []"
    and ids: "\<forall>e \<in> set (trees ! current). fst e < length trees"
    and len: "6 < length frame"
    and novf: "leaf_count (trees ! current) * (leaf_count (trees ! current) + 1) < 2 ^ 32"
  shows "visits (fst (search_root trees frame current)) = triangle (coords (trees ! current))
       \<and> snd (search_root trees frame current) \<noteq> None"
proof -
  let ?R = "trees ! current"
  let ?cs = "coords ?R"
  have L: "length ?cs = leaf_count ?R" by (simp add: coords_def length_coords_from)
  have mx: "maximum ?R = length (triangle ?cs)"
    by (simp add: maximum_triangular [OF novf] length_triangle L)
  show ?thesis
  proof (cases ?cs)
    case Nil
    with mx cur show ?thesis by (simp add: search_root_def)
  next
    case (Cons c cs')
    then have l0: "0 < length ?cs" by simp
    from Cons have c: "c = ?cs ! 0" and cs': "cs' = drop (Suc 0) ?cs" by simp_all
    from l0 coords_valid(1) [OF ne l0] have Rne: "?R \<noteq> []" by auto
    have c0: "?cs ! 0 = (0, 0)"
      using coords_from_hd [OF Rne ne, of 0] by (simp add: coords_def)
    let ?n = "length (map (Pair c) cs') + length (triangle cs')"
    have mx': "maximum ?R = Suc ?n" using mx Cons by simp
    have it: "(if False then iterateCoordinates ?R (0, 0) (0, 0) else Some ((0, 0), (0, 0)))
                = Some (?cs ! 0, ?cs ! 0)" by (simp add: c0)
    from pair_body_visit [OF ne ids len l0 l0 it, of current]
    obtain evs frame2 where
      body: "pair_body trees current ?R frame (0, 0) (0, 0) False
               = (evs, Some (frame2, ?cs ! 0, ?cs ! 0, True))"
      and v: "visits evs = [(?cs ! 0, ?cs ! 0)]"
      and l: "length frame2 = length frame" by blast
    from l len have l2: "6 < length frame2" by simp
    have bound: "?n \<le> length (drop (Suc 0) ?cs) + length (triangle (drop (Suc 0) ?cs))"
      by (simp add: cs')
    note w = pair_loop_walk [OF ne ids l2 le_refl l0 bound, of current]
    obtain evs' r where rest: "pair_loop trees current ?R frame2 (?cs ! 0) (?cs ! 0) True ?n
                               = (evs', r)"
      by (cases "pair_loop trees current ?R frame2 (?cs ! 0) (?cs ! 0) True ?n")
    have tri: "triangle ?cs = (c, c) # map (Pair c) cs' @ triangle cs'"
      by (simp add: Cons)
    from w rest have "visits evs' = map (Pair c) cs' @ triangle cs'" and "r \<noteq> None"
      by (simp_all add: c [symmetric] cs' [symmetric])
    with body rest v cur mx' tri c show ?thesis
      by (simp add: search_root_def visits_append)
  qed
qed

lemma coord_le_refl: "coord_le m m"
  by (simp add: coord_le_def)

lemma iterate_le:
  assumes "coord_le m s" and "iterateCoordinates root m s = Some (m', s')"
  shows "coord_le m' s'"
proof (cases "sweep_at_end root s")
  case None
  with assms(2) show ?thesis by (simp add: iterateCoordinates_def)
next
  case (Some e)
  show ?thesis
  proof (cases e)
    case True
    with Some assms(2) have "m' = s'"
      by (auto simp: iterateCoordinates_def split: option.splits)
    then show ?thesis by (simp add: coord_le_refl)
  next
    case False
    with Some assms(2) have "m' = m" and "advance root s = Some s'"
      by (auto simp: iterateCoordinates_def split: option.splits)
    with assms(1) show ?thesis
      by (auto simp: advance_def coord_le_def split: if_splits)
  qed
qed

lemma pair_body_le:
  assumes "coord_le m s" and "pair_body trees current root frame m s rb = (evs, r)"
  shows "(\<forall>(m', s') \<in> set (visits evs). coord_le m' s')
       \<and> (\<forall>fr m' s' rb'. r = Some (fr, m', s', rb') \<longrightarrow> coord_le m' s')"
proof (cases "getNextFrame current root frame m s rb")
  case None
  with assms(2) show ?thesis by (auto simp: pair_body_def)
next
  case (Some x)
  then obtain frame1 m1 s1 rb1
    where g: "getNextFrame current root frame m s rb = Some (frame1, m1, s1, rb1)"
    by (cases x) auto
  note gs = getNextFrame_Some [OF g]
  have le: "coord_le m1 s1"
  proof (cases rb)
    case True
    with gs(8) have "iterateCoordinates root m s = Some (m1, s1)" by simp
    with assms(1) show ?thesis by (rule iterate_le)
  next
    case False
    with gs(8) assms(1) show ?thesis by simp
  qed
  show ?thesis
  proof (cases "frame1 ! 1 < length trees \<and> frame1 ! 3 < length trees")
    case False
    with g assms(2) le show ?thesis by (auto simp: pair_body_def)
  next
    case True
    let ?M = "filter (\<lambda>c. c \<in> fst ` set (trees ! (frame1 ! 3))) (map fst (trees ! (frame1 ! 1)))"
    from pair_body_eq [OF g] True assms(2)
    have evs: "evs = Visit m1 s1 # map (\<lambda>c. Emit (frame1[4 := c])) ?M"
      and r: "r = Some (fold (\<lambda>c f. f[4 := c]) ?M frame1, m1, s1, rb1)"
      by simp_all
    have "visits evs = [(m1, s1)]"
      using visits_map_Emit [of "map (\<lambda>c. frame1[4 := c]) ?M"] by (simp add: evs comp_def)
    with r le show ?thesis by auto
  qed
qed

lemma pair_loop_le:
  assumes "coord_le m s" and "pair_loop trees current root frame m s rb n = (evs, r)"
  shows "\<forall>(m', s') \<in> set (visits evs). coord_le m' s'"
  using assms
proof (induction n arbitrary: frame m s rb evs r)
  case 0
  then show ?case by auto
next
  case (Suc n)
  obtain evs1 r1 where b: "pair_body trees current root frame m s rb = (evs1, r1)"
    by (cases "pair_body trees current root frame m s rb")
  note ok = pair_body_le [OF Suc.prems(1) b]
  show ?case
  proof (cases r1)
    case None
    with b Suc.prems(2) ok show ?thesis by auto
  next
    case (Some x)
    obtain fr m' s' rb' where x: "x = (fr, m', s', rb')" by (cases x)
    obtain evs2 r2 where l: "pair_loop trees current root fr m' s' rb' n = (evs2, r2)"
      by (cases "pair_loop trees current root fr m' s' rb' n")
    from ok Some x have "coord_le m' s'" by blast
    note ih = Suc.IH [OF this l]
    from b Some x l Suc.prems(2) have "evs = evs1 @ evs2" by simp
    with ok ih show ?thesis by (auto simp: visits_append)
  qed
qed

lemma search_root_le:
  "\<forall>(m, s) \<in> set (visits (fst (search_root trees frame current))). coord_le m s"
proof (cases "current < length trees")
  case False
  then show ?thesis by (simp add: search_root_def)
next
  case True
  obtain evs r where l: "pair_loop trees current (trees ! current) frame (0, 0) (0, 0) False
                              (maximum (trees ! current)) = (evs, r)"
    by (cases "pair_loop trees current (trees ! current) frame (0, 0) (0, 0) False
                              (maximum (trees ! current))")
  from pair_loop_le [OF coord_le_refl l] True l show ?thesis
    by (simp add: search_root_def)
qed

lemma search_root_abcabd:
  "search_root [[(1, [2, 0, 1, 3]), (2, []), (0, []), (3, [])], [], [], []] (replicate 9 sentinel) 0
     = ([Root 0, Visit (0, 0) (0, 0), Visit (0, 0) (0, 1), Visit (0, 0) (0, 2), Visit (0, 0) (0, 3)],
        None)"
  by (simp add: eval_simps)

text \<open>
  What the enumerator is written for. For a root whose branch entries all have at
  least one leaf and a branch id below the size of the forest, and whose leaf count
  \<open>L\<close> keeps \<open>L * (L + 1)\<close> below \<open>2 ^ 32\<close>: \<open>maximum\<close> returns \<open>L * (L + 1) / 2\<close>, and
  the search of the root visits exactly that many coordinate pairs, with every read
  in range.
\<close>

lemma visited_pair_count:
  assumes "current < length trees"
    and "\<forall>e \<in> set (trees ! current). snd e \<noteq> [] \<and> fst e < length trees"
    and "6 < length frame"
    and "leaf_count (trees ! current) * (leaf_count (trees ! current) + 1) < 2 ^ 32"
  shows "maximum (trees ! current)
           = leaf_count (trees ! current) * (leaf_count (trees ! current) + 1) div 2
       \<and> length (visits (fst (search_root trees frame current)))
           = leaf_count (trees ! current) * (leaf_count (trees ! current) + 1) div 2
       \<and> snd (search_root trees frame current) \<noteq> None"
proof -
  from assms(2) have ne: "\<forall>e \<in> set (trees ! current). snd e \<noteq> []"
    and ids: "\<forall>e \<in> set (trees ! current). fst e < length trees" by simp_all
  note v = search_root_visits [OF assms(1) ne ids assms(3,4)]
  have "length (coords (trees ! current)) = leaf_count (trees ! current)"
    by (simp add: coords_def length_coords_from)
  with v maximum_triangular [OF assms(4)] show ?thesis
    by (simp add: length_triangle)
qed

lemma visited_pair_count_example:
  "0 < length ([[(1, [2, 0]), (2, [1])], [], []] :: tops)
   \<and> 6 < length (replicate 9 sentinel)
   \<and> leaf_count (([[(1, [2, 0]), (2, [1])], [], []] :: tops) ! 0) = 3
   \<and> maximum (([[(1, [2, 0]), (2, [1])], [], []] :: tops) ! 0) = 6
   \<and> length (visits (fst (search_root [[(1, [2, 0]), (2, [1])], [], []] (replicate 9 sentinel) 0)))
       = 6"
proof -
  let ?T = "[[(1, [2, 0]), (2, [1])], [], []] :: tops"
  let ?F = "replicate 9 sentinel"
  have a: "0 < length ?T" by simp
  have b: "\<forall>e \<in> set (?T ! 0). snd e \<noteq> [] \<and> fst e < length ?T" by simp
  have c: "6 < length ?F" by simp
  have L: "leaf_count (?T ! 0) = 3" by (simp add: leaf_count_def)
  have d: "leaf_count (?T ! 0) * (leaf_count (?T ! 0) + 1) < 2 ^ 32"
    unfolding L by simp
  from visited_pair_count [OF a b c d]
  have "maximum (?T ! 0) = 6" and "length (visits (fst (search_root ?T ?F 0))) = 6"
    unfolding L by simp_all
  with a c L show ?thesis by (intro conjI)
qed

lemma load_abcabd:
  "load [''a'', ''b'', ''c'', ''a'', ''b'', ''d''] False =
     Some ([[(1, [2, 0, 1, 3]), (2, []), (0, []), (3, [])], [], [], []],
           [(''a'', 0), (''b'', 1), (''c'', 2), (''d'', 3)],
           [(0, ''a''), (1, ''b''), (2, ''c''), (3, ''d'')])"
  by code_simp

lemma search_abcabd:
  "search [[(1, [2, 0, 1, 3]), (2, []), (0, []), (3, [])], [], [], []]
     = ([Root 0, Visit (0, 0) (0, 0), Visit (0, 0) (0, 1), Visit (0, 0) (0, 2), Visit (0, 0) (0, 3)],
        None)"
  by (simp add: eval_simps)

text \<open>
  C4. The number of pairs visited, on the corpus \<open>a b c a b d\<close>. In the forest that
  \<open>load\<close> builds, root \<open>a\<close> has \<open>L = 4\<close> leaves, all under its first branch, and
  \<open>maximum\<close> returns \<open>4 * 5 / 2 = 10\<close>: ten pairs are due. The other three branches
  have no leaf. After the fourth pair the sweep coordinate steps onto the empty leaf
  vector of the second branch and the fifth \<open>getNextFrame\<close> reads it out of range:
  four pairs are visited, and the program does not reach its end with its reads in
  range.
\<close>

theorem visited_pairs_trigram_corpus:
  "load [''a'', ''b'', ''c'', ''a'', ''b'', ''d''] False =
     Some ([[(1, [2, 0, 1, 3]), (2, []), (0, []), (3, [])], [], [], []],
           [(''a'', 0), (''b'', 1), (''c'', 2), (''d'', 3)],
           [(0, ''a''), (1, ''b''), (2, ''c''), (3, ''d'')])
   \<and> leaf_count (([[(1, [2, 0, 1, 3]), (2, []), (0, []), (3, [])], [], [], []] :: tops) ! 0) = 4
   \<and> maximum (([[(1, [2, 0, 1, 3]), (2, []), (0, []), (3, [])], [], [], []] :: tops) ! 0) = 10
   \<and> visits (fst (search_root [[(1, [2, 0, 1, 3]), (2, []), (0, []), (3, [])], [], [], []]
                      (replicate 9 sentinel) 0))
       = [((0, 0), (0, 0)), ((0, 0), (0, 1)), ((0, 0), (0, 2)), ((0, 0), (0, 3))]
   \<and> snd (search_root [[(1, [2, 0, 1, 3]), (2, []), (0, []), (3, [])], [], [], []]
             (replicate 9 sentinel) 0) = None
   \<and> main_output [''a'', ''b'', ''c'', ''a'', ''b'', ''d''] False
       = ([''dictionary loaded'', ''begin search phase'', ''root: a''], False)"
proof -
  let ?R = "[(1, [2, 0, 1, 3]), (2, []), (0, []), (3, [])] :: top"
  let ?T = "[?R, [], [], []] :: tops"
  have a: "leaf_count (?T ! 0) = 4"
    by (simp add: leaf_count_def)
  have m: "maximum (?T ! 0) = 10"
    by (simp add: maximum_def grandchildren_loop_def u32_def)
  have b: "visits (fst (search_root ?T (replicate 9 sentinel) 0))
       = [((0, 0), (0, 0)), ((0, 0), (0, 1)), ((0, 0), (0, 2)), ((0, 0), (0, 3))]"
    by (subst search_root_abcabd) simp
  have c: "snd (search_root ?T (replicate 9 sentinel) 0) = None"
    by (subst search_root_abcabd) simp
  have d: "main_output [''a'', ''b'', ''c'', ''a'', ''b'', ''d''] False
       = ([''dictionary loaded'', ''begin search phase'', ''root: a''], False)"
    by (simp only: main_output_def load_abcabd option.case prod.case search_abcabd)
       (simp add: rd_index_def)
  show ?thesis by (intro conjI load_abcabd a m b c d)
qed

text \<open>
  The product of \<open>maximum\<close> is computed in \<open>unsigned int\<close> and wraps around: for a
  root with 92682 leaves it returns 55607, not 4295022903.
\<close>

lemma maximum_wraps:
  "leaf_count [(0, [0..<92682])] = 92682 \<and> maximum [(0, [0..<92682])] = 55607"
  by (simp add: leaf_count_def maximum_def grandchildren_loop_def u32_def)

text \<open>
  In every search of a root the sweep coordinate is lexicographically at or after
  the main coordinate at each visit. For a root whose branch entries all have at least
  one leaf, \<open>iterateCoordinates\<close> moves the sweep from a flattened position that is not
  the last to the next one and leaves main alone, and from the last position it moves
  main to its next position and sets the sweep to it. For such a root in a forest
  (branch ids below the size of the forest, \<open>L * (L + 1) < 2 ^ 32\<close>) the pairs visited
  are, in this order, the upper triangle of the flattened positions, diagonal included,
  row by row, starting with main and sweep at position 0.
\<close>

lemma coordinate_enumeration:
  "(\<forall>(m, s) \<in> set (visits (fst (search_root trees frame current))). coord_le m s)
   \<and> ((\<forall>e \<in> set root. snd e \<noteq> []) \<longrightarrow>
        (\<forall>j. Suc j < length (coords root) \<longrightarrow>
              iterateCoordinates root m (coords root ! j) = Some (m, coords root ! Suc j))
        \<and> (\<forall>i. Suc i < length (coords root) \<longrightarrow>
              iterateCoordinates root (coords root ! i) (last (coords root))
                = Some (coords root ! Suc i, coords root ! Suc i)))
   \<and> (current < length trees
        \<and> (\<forall>e \<in> set (trees ! current). snd e \<noteq> [] \<and> fst e < length trees)
        \<and> 6 < length frame
        \<and> leaf_count (trees ! current) * (leaf_count (trees ! current) + 1) < 2 ^ 32 \<longrightarrow>
        visits (fst (search_root trees frame current)) = triangle (coords (trees ! current))
        \<and> snd (search_root trees frame current) \<noteq> None)"
proof -
  have a: "\<forall>(m, s) \<in> set (visits (fst (search_root trees frame current))). coord_le m s"
    by (rule search_root_le)
  have b: "(\<forall>j. Suc j < length (coords root) \<longrightarrow>
              iterateCoordinates root m (coords root ! j) = Some (m, coords root ! Suc j))
        \<and> (\<forall>i. Suc i < length (coords root) \<longrightarrow>
              iterateCoordinates root (coords root ! i) (last (coords root))
                = Some (coords root ! Suc i, coords root ! Suc i))"
    if ne: "\<forall>e \<in> set root. snd e \<noteq> []"
  proof (intro conjI allI impI)
    fix j assume "Suc j < length (coords root)"
    with ne show "iterateCoordinates root m (coords root ! j) = Some (m, coords root ! Suc j)"
      by (rule iterate_sweep)
  next
    fix i assume i: "Suc i < length (coords root)"
    then have "coords root \<noteq> []" by auto
    then have l: "last (coords root) = coords root ! (length (coords root) - 1)"
      by (rule last_conv_nth)
    from i have "Suc (length (coords root) - 1) = length (coords root)" by simp
    from iterate_main [OF ne i this] l
    show "iterateCoordinates root (coords root ! i) (last (coords root))
            = Some (coords root ! Suc i, coords root ! Suc i)" by simp
  qed
  have c: "visits (fst (search_root trees frame current)) = triangle (coords (trees ! current))
        \<and> snd (search_root trees frame current) \<noteq> None"
    if "current < length trees
        \<and> (\<forall>e \<in> set (trees ! current). snd e \<noteq> [] \<and> fst e < length trees)
        \<and> 6 < length frame
        \<and> leaf_count (trees ! current) * (leaf_count (trees ! current) + 1) < 2 ^ 32"
    using that by (intro search_root_visits) simp_all
  from a b c show ?thesis by blast
qed

lemma coordinate_enumeration_example:
  "coords (([[(1, [2, 0]), (2, [1])], [], []] :: tops) ! 0) = [(0, 0), (0, 1), (1, 0)]
   \<and> visits (fst (search_root [[(1, [2, 0]), (2, [1])], [], []] (replicate 9 sentinel) 0))
       = [((0, 0), (0, 0)), ((0, 0), (0, 1)), ((0, 0), (1, 0)),
          ((0, 1), (0, 1)), ((0, 1), (1, 0)), ((1, 0), (1, 0))]
   \<and> iterateCoordinates [(1, [2, 0]), (2, [1])] (0, 0) (0, 1) = Some ((0, 0), (1, 0))
   \<and> iterateCoordinates [(1, [2, 0]), (2, [1])] (0, 0) (1, 0) = Some ((0, 1), (0, 1))
   \<and> coord_le (0, 1) (1, 0)"
proof -
  let ?R = "[(1, [2, 0]), (2, [1])] :: top"
  let ?T = "[?R, [], []] :: tops"
  let ?F = "replicate 9 sentinel"
  note inst = coordinate_enumeration [of ?T ?F 0 ?R "(0, 0)"]
  have cs: "coords (?T ! 0) = [(0, 0), (0, 1), (1, 0)]" and csR: "coords ?R = [(0, 0), (0, 1), (1, 0)]"
    by (simp_all add: coords_def)
  have h1: "\<forall>e \<in> set ?R. snd e \<noteq> []" by simp
  have h2: "0 < length ?T \<and> (\<forall>e \<in> set (?T ! 0). snd e \<noteq> [] \<and> fst e < length ?T)
            \<and> 6 < length ?F
            \<and> leaf_count (?T ! 0) * (leaf_count (?T ! 0) + 1) < 2 ^ 32"
    by (simp add: leaf_count_def)
  from inst h2 have "visits (fst (search_root ?T ?F 0)) = triangle (coords (?T ! 0))"
    by blast
  then have v: "visits (fst (search_root ?T ?F 0))
       = [((0, 0), (0, 0)), ((0, 0), (0, 1)), ((0, 0), (1, 0)),
          ((0, 1), (0, 1)), ((0, 1), (1, 0)), ((1, 0), (1, 0))]"
    unfolding cs by simp
  have m: "((0, 1), (1, 0)) \<in> set (visits (fst (search_root ?T ?F 0)))"
    unfolding v by simp
  from inst m have le: "coord_le (0, 1) (1, 0)" by blast
  from inst h1 have
    "Suc 1 < length (coords ?R) \<longrightarrow>
       iterateCoordinates ?R (0, 0) (coords ?R ! 1) = Some ((0, 0), coords ?R ! Suc 1)"
    and "Suc 0 < length (coords ?R) \<longrightarrow>
       iterateCoordinates ?R (coords ?R ! 0) (last (coords ?R))
         = Some (coords ?R ! Suc 0, coords ?R ! Suc 0)"
    by blast+
  then have s1: "iterateCoordinates ?R (0, 0) (0, 1) = Some ((0, 0), (1, 0))"
    and s2: "iterateCoordinates ?R (0, 0) (1, 0) = Some ((0, 1), (0, 1))"
    unfolding csR by simp_all
  show ?thesis by (intro conjI cs v s1 s2 le)
qed

text \<open>
  C5. The step of the enumeration, on the corpus \<open>a b c a b d\<close>. In the forest that
  \<open>load\<close> builds, the flattened positions of root \<open>a\<close> are the four leaves of its
  first branch. With the sweep at the last of them, \<open>(0, 3)\<close>, main is due to advance
  to \<open>(0, 1)\<close> and the sweep to be set to it. \<open>iterateCoordinates\<close> does neither: the
  test of line 59 compares the sweep against \<open>size() - 1\<close> of the last branch, which
  has no leaf, so the end of the sweep is not seen; main stays and the sweep goes to
  \<open>(1, 0)\<close>, where there is no leaf. The pairs visited are the first row of the
  triangle and no more.
\<close>

theorem coordinate_step_trigram_corpus:
  "load [''a'', ''b'', ''c'', ''a'', ''b'', ''d''] False =
     Some ([[(1, [2, 0, 1, 3]), (2, []), (0, []), (3, [])], [], [], []],
           [(''a'', 0), (''b'', 1), (''c'', 2), (''d'', 3)],
           [(0, ''a''), (1, ''b''), (2, ''c''), (3, ''d'')])
   \<and> coords (([[(1, [2, 0, 1, 3]), (2, []), (0, []), (3, [])], [], [], []] :: tops) ! 0)
       = [(0, 0), (0, 1), (0, 2), (0, 3)]
   \<and> iterateCoordinates [(1, [2, 0, 1, 3]), (2, []), (0, []), (3, [])] (0, 0) (0, 3)
       = Some ((0, 0), (1, 0))
   \<and> visits (fst (search_root [[(1, [2, 0, 1, 3]), (2, []), (0, []), (3, [])], [], [], []]
                      (replicate 9 sentinel) 0))
       = [((0, 0), (0, 0)), ((0, 0), (0, 1)), ((0, 0), (0, 2)), ((0, 0), (0, 3))]
   \<and> visits (fst (search_root [[(1, [2, 0, 1, 3]), (2, []), (0, []), (3, [])], [], [], []]
                      (replicate 9 sentinel) 0))
       \<noteq> triangle (coords (([[(1, [2, 0, 1, 3]), (2, []), (0, []), (3, [])], [], [], []] :: tops) ! 0))"
proof -
  let ?R = "[(1, [2, 0, 1, 3]), (2, []), (0, []), (3, [])] :: top"
  let ?T = "[?R, [], [], []] :: tops"
  have a: "coords (?T ! 0) = [(0, 0), (0, 1), (0, 2), (0, 3)]"
    by (simp add: coords_def)
  have b: "iterateCoordinates ?R (0, 0) (0, 3) = Some ((0, 0), (1, 0))"
    by (simp add: iterateCoordinates_def sweep_at_end_def advance_def size_minus_1_def)
  have c: "visits (fst (search_root ?T (replicate 9 sentinel) 0))
       = [((0, 0), (0, 0)), ((0, 0), (0, 1)), ((0, 0), (0, 2)), ((0, 0), (0, 3))]"
    by (subst search_root_abcabd) simp
  have d: "visits (fst (search_root ?T (replicate 9 sentinel) 0)) \<noteq> triangle (coords (?T ! 0))"
    unfolding c a by simp
  show ?thesis by (intro conjI load_abcabd a b c d)
qed

end
